theory Spec2Isabelle
  imports Main "HOL-Library.Word" "HOL-Library.Multiset"
begin

unbundle bit_operations_syntax

section \<open>Target, addresses and memory\<close>

text \<open>
  The embedding fixes the 64-bit little-endian target of \<^verbatim>\<open>chipool.hpp\<close> (the default
  strategy binds to \<^verbatim>\<open>VirtualAlloc\<close>, so the file is written for x64 Windows):
  \<^verbatim>\<open>uintptr_t\<close> and \<^verbatim>\<open>size_t\<close> are 64-bit words, a pointer takes 8 bytes,
  \<^verbatim>\<open>uint16_t\<close> takes 2 bytes. Pointers are addresses; \<open>0\<close> is \<^verbatim>\<open>nullptr\<close>.
  The address space is a total map from addresses to bytes: the source never checks
  a pointer, so neither does the model, and every read and write of the source is a
  read or write of bytes here. Chunks (\<^verbatim>\<open>SubPool\<close>) live in this memory, which is
  what lets \<^verbatim>\<open>Deallocate\<close> find a header from a slot pointer by masking.
\<close>

type_synonym addr = "64 word"
type_synonym memory = "addr \<Rightarrow> 8 word"

definition load_u8 :: "memory \<Rightarrow> addr \<Rightarrow> 8 word" where
  "load_u8 m a = m a"

definition store_u8 :: "memory \<Rightarrow> addr \<Rightarrow> 8 word \<Rightarrow> memory" where
  "store_u8 m a v = m(a := v)"

definition load_u16 :: "memory \<Rightarrow> addr \<Rightarrow> 16 word" where
  "load_u16 m a = word_cat (m (a + 1)) (m a)"

definition store_u16 :: "memory \<Rightarrow> addr \<Rightarrow> 16 word \<Rightarrow> memory" where
  "store_u16 m a v = m(a := ucast v, a + 1 := ucast (drop_bit 8 v))"

definition load_u32 :: "memory \<Rightarrow> addr \<Rightarrow> 32 word" where
  "load_u32 m a = word_cat (load_u16 m (a + 2)) (load_u16 m a)"

definition store_u32 :: "memory \<Rightarrow> addr \<Rightarrow> 32 word \<Rightarrow> memory" where
  "store_u32 m a v = store_u16 (store_u16 m a (ucast v)) (a + 2) (ucast (drop_bit 16 v))"

definition load_ptr :: "memory \<Rightarrow> addr \<Rightarrow> addr" where
  "load_ptr m a = word_cat (load_u32 m (a + 4)) (load_u32 m a)"

definition store_ptr :: "memory \<Rightarrow> addr \<Rightarrow> addr \<Rightarrow> memory" where
  "store_ptr m a v = store_u32 (store_u32 m a (ucast v)) (a + 4) (ucast (drop_bit 32 v))"

section \<open>Constants and the layout calculator\<close>

definition kPageSize :: nat where
  "kPageSize = 4096"

definition kPageMask :: addr where
  "kPageMask = NOT 0xFFF"

text \<open>\<^verbatim>\<open>constexpr uint16_t kInvalidIdx = ~0\<close>: the int \<open>-1\<close> converted to 16 bits.\<close>

definition kInvalidIdx :: "16 word" where
  "kInvalidIdx = word_of_int (NOT 0)"

text \<open>
  The object type \<^verbatim>\<open>T\<close> enters only through \<^verbatim>\<open>sizeof(T)\<close>, written \<open>tsz\<close>.
  \<^verbatim>\<open>union Chip { next_idx; T value; }\<close> has the link field \<^verbatim>\<open>uint8_t\<close> when
  \<^verbatim>\<open>sizeof(T) == 1\<close> and \<^verbatim>\<open>uint16_t\<close> otherwise. A union is as large as its largest
  member, rounded up to its alignment; the alignment of \<^verbatim>\<open>T\<close> divides \<open>tsz\<close>, so for
  \<open>tsz \<noteq> 1\<close> the union is \<open>tsz\<close> rounded up to the 2-byte alignment of the link.
\<close>

definition sizeof_next_idx :: "nat \<Rightarrow> nat" where
  "sizeof_next_idx tsz = (if tsz = 1 then 1 else 2)"

definition sizeof_Chip :: "nat \<Rightarrow> nat" where
  "sizeof_Chip tsz =
     (let a = sizeof_next_idx tsz; s = max tsz (sizeof_next_idx tsz)
      in ((s + a - 1) div a) * a)"

text \<open>
  \<^verbatim>\<open>Header1Byte\<close> and \<^verbatim>\<open>HeaderNot1Byte\<close>: four \<^verbatim>\<open>uint16_t\<close> fields and one pointer
  (\<^verbatim>\<open>reserve2\<close> exists on 32-bit Windows only). The pointer is 8-aligned at offset 8.
\<close>

definition sizeof_Header :: "nat \<Rightarrow> nat" where
  "sizeof_Header tsz = (if tsz = 1 then 2 + 2 + 2 + 2 + 8 else 2 + 2 + 2 + 2 + 8)"

definition kUsableSize :: "nat \<Rightarrow> nat" where
  "kUsableSize tsz = (if tsz = 1 then kPageSize div 8 else kPageSize) - sizeof_Header tsz"

definition kChipCount :: "nat \<Rightarrow> nat" where
  "kChipCount tsz = kUsableSize tsz div sizeof_Chip tsz"

definition is_valid_chip_v :: "nat \<Rightarrow> bool" where
  "is_valid_chip_v tsz = (kUsableSize tsz mod tsz = 0)"

text \<open>
  \<^verbatim>\<open>sizeof(SubPool)\<close> is read by the 1-byte branch of \<^verbatim>\<open>AllocSubPool\<close> only, where
  header plus slot array is 512 bytes, a multiple of the alignment: no tail padding.
\<close>

definition sizeof_SubPool :: "nat \<Rightarrow> nat" where
  "sizeof_SubPool tsz = sizeof_Header tsz + kChipCount tsz * sizeof_Chip tsz"

section \<open>SubPool: header fields and slots in memory\<close>

text \<open>Field offsets: \<^verbatim>\<open>free_idx\<close> 0, \<^verbatim>\<open>begin_idx\<close> 2, \<^verbatim>\<open>used_count\<close> 4,
  \<^verbatim>\<open>reserve\<close> 6, \<^verbatim>\<open>next_pool\<close> 8; \<^verbatim>\<open>usable_mems\<close> starts after the header.\<close>

definition free_idx :: "memory \<Rightarrow> addr \<Rightarrow> 16 word" where
  "free_idx m pool = load_u16 m pool"

definition begin_idx :: "memory \<Rightarrow> addr \<Rightarrow> 16 word" where
  "begin_idx m pool = load_u16 m (pool + 2)"

definition used_count :: "memory \<Rightarrow> addr \<Rightarrow> 16 word" where
  "used_count m pool = load_u16 m (pool + 4)"

definition next_pool :: "memory \<Rightarrow> addr \<Rightarrow> addr" where
  "next_pool m pool = load_ptr m (pool + 8)"

definition set_free_idx :: "memory \<Rightarrow> addr \<Rightarrow> 16 word \<Rightarrow> memory" where
  "set_free_idx m pool v = store_u16 m pool v"

definition set_begin_idx :: "memory \<Rightarrow> addr \<Rightarrow> 16 word \<Rightarrow> memory" where
  "set_begin_idx m pool v = store_u16 m (pool + 2) v"

definition set_used_count :: "memory \<Rightarrow> addr \<Rightarrow> 16 word \<Rightarrow> memory" where
  "set_used_count m pool v = store_u16 m (pool + 4) v"

definition set_next_pool :: "memory \<Rightarrow> addr \<Rightarrow> addr \<Rightarrow> memory" where
  "set_next_pool m pool v = store_ptr m (pool + 8) v"

definition usable_mems :: "nat \<Rightarrow> addr \<Rightarrow> addr" where
  "usable_mems tsz pool = pool + of_nat (sizeof_Header tsz)"

text \<open>\<^verbatim>\<open>&usable_mems[i]\<close>, with no bounds check, as in the source.\<close>

definition chip_addr :: "nat \<Rightarrow> addr \<Rightarrow> nat \<Rightarrow> addr" where
  "chip_addr tsz pool i = usable_mems tsz pool + of_nat i * of_nat (sizeof_Chip tsz)"

text \<open>Reading \<^verbatim>\<open>chip.next_idx\<close> into a \<^verbatim>\<open>uint16_t\<close>, and storing a \<^verbatim>\<open>uint16_t\<close>
  into it: the 1-byte link zero-extends on the way out and truncates on the way in.\<close>

definition load_next_idx :: "nat \<Rightarrow> memory \<Rightarrow> addr \<Rightarrow> 16 word" where
  "load_next_idx tsz m chip = (if tsz = 1 then ucast (load_u8 m chip) else load_u16 m chip)"

definition store_next_idx :: "nat \<Rightarrow> memory \<Rightarrow> addr \<Rightarrow> 16 word \<Rightarrow> memory" where
  "store_next_idx tsz m chip v =
     (if tsz = 1 then store_u8 m chip (ucast v) else store_u16 m chip v)"

definition IsFreeIdxValid :: "memory \<Rightarrow> addr \<Rightarrow> bool" where
  "IsFreeIdxValid m pool = (free_idx m pool \<noteq> kInvalidIdx)"

definition IsNotBeginInEnd :: "nat \<Rightarrow> memory \<Rightarrow> addr \<Rightarrow> bool" where
  "IsNotBeginInEnd tsz m pool = (unat (begin_idx m pool) \<noteq> kChipCount tsz)"

definition FreeMem :: "nat \<Rightarrow> memory \<Rightarrow> addr \<Rightarrow> addr" where
  "FreeMem tsz m pool = chip_addr tsz pool (unat (free_idx m pool))"

definition BeginMem :: "nat \<Rightarrow> memory \<Rightarrow> addr \<Rightarrow> addr" where
  "BeginMem tsz m pool = chip_addr tsz pool (unat (begin_idx m pool))"

definition IsFull :: "nat \<Rightarrow> memory \<Rightarrow> addr \<Rightarrow> bool" where
  "IsFull tsz m pool = (unat (used_count m pool) = kChipCount tsz)"

definition IsEmpty :: "memory \<Rightarrow> addr \<Rightarrow> bool" where
  "IsEmpty m pool = (used_count m pool = 0)"

section \<open>Pool\<close>

text \<open>
  The members of \<^verbatim>\<open>Pool\<close>, and with them the world the operations act on: the memory,
  and the injected strategy. \<open>allocate s k\<close> is the address the acquire strategy
  \<^verbatim>\<open>allocate_\<close> returns at its \<open>k\<close>-th call (the Pool always asks for \<open>kPageSize\<close>
  bytes); \<open>alloc_calls\<close> counts the calls made. The contents of an acquired page are
  what \<open>mem\<close> holds there. The release strategy \<^verbatim>\<open>deallocate_\<close> is represented by
  \<open>dealloc_calls\<close>, the log of the calls made to it.
\<close>

record Pool =
  cur_pool :: addr
  allocate :: "nat \<Rightarrow> addr"
  alloc_calls :: nat
  dealloc_calls :: "addr list"
  used_chip_count :: "64 word"
  mem :: memory

definition Pool_ctor :: "(nat \<Rightarrow> addr) \<Rightarrow> memory \<Rightarrow> Pool" where
  "Pool_ctor strategy m =
     \<lparr>cur_pool = 0, allocate = strategy, alloc_calls = 0, dealloc_calls = [],
      used_chip_count = 0, mem = m\<rparr>"

text \<open>\<^verbatim>\<open>~Pool() {}\<close>\<close>

definition Pool_dtor :: "Pool \<Rightarrow> Pool" where
  "Pool_dtor s = s"

text \<open>The loop of the 1-byte branch of \<^verbatim>\<open>AllocSubPool\<close>:
  \<^verbatim>\<open>for (i = 1; i < pool_num; i++) { tmp->free_idx = kInvalidIdx; tmp->next_pool = tmp + 1; ++tmp; }\<close>\<close>

function link_loop :: "nat \<Rightarrow> nat \<Rightarrow> nat \<Rightarrow> addr \<Rightarrow> memory \<Rightarrow> addr \<times> memory" where
  "link_loop tsz i pool_num tmp m =
     (if i < pool_num then
        link_loop tsz (i + 1) pool_num (tmp + of_nat (sizeof_SubPool tsz))
          (set_next_pool (set_free_idx m tmp kInvalidIdx) tmp (tmp + of_nat (sizeof_SubPool tsz)))
      else (tmp, m))"
  by pat_completeness auto
termination
  by (relation "measure (\<lambda>(tsz, i, pool_num, tmp, m). pool_num - i)") auto

declare link_loop.simps [simp del]

text \<open>\<^verbatim>\<open>SubPool* AllocSubPool()\<close>: one call of the acquire strategy; \<^verbatim>\<open>free_idx\<close> of the
  new chunk is set to the sentinel. For a 1-byte object type the page is cut into
  \<open>pool_num\<close> chunks, each linked to the next.\<close>

definition AllocSubPool :: "nat \<Rightarrow> Pool \<Rightarrow> addr \<times> Pool" where
  "AllocSubPool tsz s =
     (let pool = allocate s (alloc_calls s);
          s1 = s\<lparr>alloc_calls := alloc_calls s + 1\<rparr>
      in if tsz = 1 then
           (let pool_num = kPageSize div sizeof_SubPool tsz;
                (tmp, m) = link_loop tsz 1 pool_num pool (mem s1)
            in (pool, s1\<lparr>mem := set_free_idx m tmp kInvalidIdx\<rparr>))
         else (pool, s1\<lparr>mem := set_free_idx (mem s1) pool kInvalidIdx\<rparr>))"

text \<open>\<^verbatim>\<open>cur_pool_ = AllocSubPool()\<close>\<close>

definition adopt :: "addr \<times> Pool \<Rightarrow> Pool" where
  "adopt r = (snd r)\<lparr>cur_pool := fst r\<rparr>"

text \<open>The second half of \<^verbatim>\<open>Allocate\<close>, from \<^verbatim>\<open>++cur_pool_->header.used_count\<close> on.\<close>

definition take_slot :: "nat \<Rightarrow> Pool \<Rightarrow> addr \<times> Pool" where
  "take_slot tsz s =
     (let cur = cur_pool s;
          m = set_used_count (mem s) cur (used_count (mem s) cur + 1)
      in if IsFreeIdxValid m cur then
           (let res = FreeMem tsz m cur
            in (res, s\<lparr>mem := set_free_idx m cur (load_next_idx tsz m res)\<rparr>))
         else
           (let res = BeginMem tsz m cur
            in (res, s\<lparr>mem := set_begin_idx m cur (begin_idx m cur + 1)\<rparr>)))"

text \<open>\<^verbatim>\<open>T* Allocate()\<close>: the pointer returned and the Pool afterwards. A current chunk
  that is full is left for its \<^verbatim>\<open>next_pool\<close> when that is not null, for a new chunk
  otherwise; the chunk arrived at is not tested again.\<close>

definition Allocate :: "nat \<Rightarrow> Pool \<Rightarrow> addr \<times> Pool" where
  "Allocate tsz s =
     (let s1 = (if cur_pool s = 0 then adopt (AllocSubPool tsz s) else s);
          s2 = (if IsFull tsz (mem s1) (cur_pool s1) then
                  (if next_pool (mem s1) (cur_pool s1) \<noteq> 0
                   then s1\<lparr>cur_pool := next_pool (mem s1) (cur_pool s1)\<rparr>
                   else adopt (AllocSubPool tsz s1))
                else s1)
      in take_slot tsz s2)"

text \<open>\<^verbatim>\<open>void Deallocate(T* ptr)\<close>. The chunk is the pointer with its page-offset bits
  cleared; the index is the distance from \<^verbatim>\<open>usable_mems\<close> in slots, stored into the
  16-bit \<^verbatim>\<open>free_idx\<close>. The source states no check of its precondition, and neither does
  the model: on any pointer it performs the same reads and writes.\<close>

definition Deallocate :: "nat \<Rightarrow> Pool \<Rightarrow> addr \<Rightarrow> Pool" where
  "Deallocate tsz s ptr =
     (let pool = ptr AND kPageMask;
          chip = ptr;
          idx = (ptr - usable_mems tsz pool) div of_nat (sizeof_Chip tsz);
          s1 = (if IsFull tsz (mem s) pool then
                  (if \<not> IsFull tsz (mem s) (cur_pool s)
                   then s\<lparr>mem := set_next_pool (mem s) pool (cur_pool s)\<rparr>
                   else s)\<lparr>cur_pool := pool\<rparr>
                else s);
          m2 = set_used_count (mem s1) pool (used_count (mem s1) pool - 1)
      in if IsEmpty m2 pool then
           s1\<lparr>mem := set_begin_idx (set_free_idx m2 pool kInvalidIdx) pool 0\<rparr>
         else
           s1\<lparr>mem := set_free_idx (store_next_idx tsz m2 chip (free_idx m2 pool)) pool (ucast idx)\<rparr>)"

section \<open>Runs\<close>

text \<open>\<open>n\<close> calls of \<^verbatim>\<open>Allocate\<close> in a row: the pointers returned, in order, and the
  Pool after the last call.\<close>

fun Allocate_n :: "nat \<Rightarrow> nat \<Rightarrow> Pool \<Rightarrow> addr list \<times> Pool" where
  "Allocate_n tsz 0 s = ([], s)"
| "Allocate_n tsz (Suc n) s =
     (case Allocate tsz s of (p, s1) \<Rightarrow>
        (case Allocate_n tsz n s1 of (ps, s2) \<Rightarrow> (p # ps, s2)))"

text \<open>\<^verbatim>\<open>Deallocate\<close> called on each pointer of a list, in the order of the list.\<close>

definition Deallocate_all :: "nat \<Rightarrow> Pool \<Rightarrow> addr list \<Rightarrow> Pool" where
  "Deallocate_all tsz s ptrs = foldl (Deallocate tsz) s ptrs"

text \<open>A client's calls on a Pool: any interleaving of the two operations, with any
  pointer arguments, possibly ending the Pool's life.\<close>

datatype call = Alloc | Dealloc addr | Destroy

fun run_call :: "nat \<Rightarrow> Pool \<Rightarrow> call \<Rightarrow> Pool" where
  "run_call tsz s Alloc = snd (Allocate tsz s)"
| "run_call tsz s (Dealloc ptr) = Deallocate tsz s ptr"
| "run_call tsz s Destroy = Pool_dtor s"

definition run :: "nat \<Rightarrow> Pool \<Rightarrow> call list \<Rightarrow> Pool" where
  "run tsz s cs = foldl (run_call tsz) s cs"

section \<open>Vocabulary of the statements\<close>

text \<open>A page-aligned address: the low 12 bits are clear.\<close>

definition page_aligned :: "addr \<Rightarrow> bool" where
  "page_aligned p = (p AND 0xFFF = 0)"

text \<open>The 16-byte headers at \<open>p\<close> and \<open>q\<close> do not overlap: the two addresses are at
  least 16 bytes apart, in both directions of the wrapping address space.\<close>

definition far :: "addr \<Rightarrow> addr \<Rightarrow> bool" where
  "far p q = (16 \<le> q - p \<and> 16 \<le> p - q)"

text \<open>The \<open>n\<close> byte addresses of a field that starts at \<open>a\<close>.\<close>

definition bytes_at :: "addr \<Rightarrow> nat \<Rightarrow> addr list" where
  "bytes_at a n = map (\<lambda>i. a + of_nat i) [0..<n]"

text \<open>The chunks that one call of \<^verbatim>\<open>AllocSubPool\<close> sets up in the page at \<open>pool\<close>:
  \<open>pool_num\<close> chunks end to end for a 1-byte type, one chunk otherwise.\<close>

definition chunk_bases :: "nat \<Rightarrow> addr \<Rightarrow> addr list" where
  "chunk_bases tsz pool =
     (if tsz = 1
      then map (\<lambda>k. pool + of_nat (k * sizeof_SubPool tsz))
             [0..<kPageSize div sizeof_SubPool tsz]
      else [pool])"

text \<open>The bytes of the fields \<^verbatim>\<open>AllocSubPool\<close> assigns: \<^verbatim>\<open>free_idx\<close> (2 bytes at offset
  0) of every chunk, and \<^verbatim>\<open>next_pool\<close> (8 bytes at offset 8) of every chained chunk
  but the last.\<close>

definition AllocSubPool_writes :: "nat \<Rightarrow> addr \<Rightarrow> addr list" where
  "AllocSubPool_writes tsz pool =
     (if tsz = 1
      then concat (map (\<lambda>k. bytes_at (pool + of_nat (k * sizeof_SubPool tsz)) 2 @
                          (if k + 1 < kPageSize div sizeof_SubPool tsz
                           then bytes_at (pool + of_nat (k * sizeof_SubPool tsz) + 8) 8
                           else []))
                    [0..<kPageSize div sizeof_SubPool tsz])
      else bytes_at pool 2)"

text \<open>Memory \<open>m\<close> with \<^verbatim>\<open>used_count\<close> and \<^verbatim>\<open>begin_idx\<close> of the chunk at \<open>p\<close> both set
  to \<open>k\<close>: what \<open>k\<close> bump allocations leave of a fresh chunk.\<close>

definition bump_mem :: "memory \<Rightarrow> addr \<Rightarrow> nat \<Rightarrow> memory" where
  "bump_mem m p k = set_begin_idx (set_used_count m p (of_nat k)) p (of_nat k)"

text \<open>The header fields that \<^verbatim>\<open>AllocSubPool\<close> does not assign read as zero in \<open>m\<close>
  at \<open>p\<close>: what a zero-initialised page gives a chunk placed at \<open>p\<close>.\<close>

definition zeroed_header :: "memory \<Rightarrow> addr \<Rightarrow> bool" where
  "zeroed_header m p = (begin_idx m p = 0 \<and> used_count m p = 0 \<and> next_pool m p = 0)"

text \<open>A concrete strategy and memory for closed statements: the strategy hands out
  consecutive pages from \<open>0x10000\<close> on, and memory is zero-initialised, as
  \<^verbatim>\<open>VirtualAlloc\<close> returns it.\<close>

definition pages :: "nat \<Rightarrow> addr" where
  "pages k = 0x10000 + 0x1000 * of_nat k"

definition zero_mem :: memory where
  "zero_mem = (\<lambda>a. 0)"

section \<open>Scenarios\<close>

text \<open>A 1-byte object type, on the concrete strategy and memory: allocate \<open>a\<close>, allocate
  \<open>b\<close>, release \<open>a\<close>, allocate again. The result lists the three pointers returned
  and the final Pool.\<close>

definition sentinel_run :: "addr \<times> addr \<times> addr \<times> Pool" where
  "sentinel_run =
     (case Allocate 1 (Pool_ctor pages zero_mem) of (a, s1) \<Rightarrow>
      case Allocate 1 s1 of (b, s2) \<Rightarrow>
      case Allocate 1 (Deallocate 1 s2 a) of (c, s4) \<Rightarrow> (a, b, c, s4))"

text \<open>An 8-byte object type, on the concrete strategy and memory: three allocations, then
  the second pointer is released.\<close>

definition lifo_state :: Pool where
  "lifo_state =
     Deallocate 8 (snd (Allocate_n 8 3 (Pool_ctor pages zero_mem))) (chip_addr 8 (pages 0) 1)"

text \<open>An object type of 2040 bytes, on the concrete strategy and memory, after three
  allocations: the chunk in page 0 is full, the chunk in page 1 is current and holds one
  object.\<close>

definition rotation_state :: Pool where
  "rotation_state = snd (Allocate 2040 (snd (Allocate_n 2040 2 (Pool_ctor pages zero_mem))))"

text \<open>Any object type and strategy: fill the first chunk (\<open>chip_count\<close> allocations),
  allocate \<open>chip_count - 1\<close> times more, then release the first pointer, allocate twice,
  release the pointer the first of these two calls returned, and allocate once. Every
  \<^verbatim>\<open>Deallocate\<close> releases a pointer that an earlier \<^verbatim>\<open>Allocate\<close> returned and that is live
  at that moment. The result lists the pointers returned, in order, and the Pool after
  these calls.\<close>

definition stale_link_calls :: "nat \<Rightarrow> (nat \<Rightarrow> addr) \<Rightarrow> memory \<Rightarrow> addr list \<times> Pool" where
  "stale_link_calls tsz strategy m =
     (case Allocate_n tsz (kChipCount tsz) (Pool_ctor strategy m) of (as, s1) \<Rightarrow>
      case Allocate_n tsz (kChipCount tsz - 1) s1 of (bs, s2) \<Rightarrow>
      case Allocate tsz (Deallocate tsz s2 (hd as)) of (a1, s4) \<Rightarrow>
      case Allocate tsz s4 of (b1, s5) \<Rightarrow>
      case Allocate tsz (Deallocate tsz s5 a1) of (a2, s7) \<Rightarrow>
        (as @ bs @ [a1, b1, a2], s7))"

text \<open>A 1-byte object type (496 slots per chunk, 8 chunks chained in a page), on the
  concrete strategy and memory: 496 allocations, then 496 more. The result lists the
  pointers of the first and of the second group, in order, and the Pool after these
  calls.\<close>

definition chained_fill :: "addr list \<times> addr list \<times> Pool" where
  "chained_fill =
     (case Allocate_n 1 496 (Pool_ctor pages zero_mem) of (as, s1) \<Rightarrow>
      case Allocate_n 1 496 s1 of (bs, s2) \<Rightarrow> (as, bs, s2))"

text \<open>A 1-byte object type, on the concrete strategy and memory: 300 allocations, then the
  last pointer returned is released, then the one before it, and one allocation follows.
  The result lists the 300 pointers, the pointer of the last allocation, and the Pool
  after these calls.\<close>

definition lifo_1byte_calls :: "addr list \<times> addr \<times> Pool" where
  "lifo_1byte_calls =
     (case Allocate_n 1 300 (Pool_ctor pages zero_mem) of (as, s1) \<Rightarrow>
      case Allocate 1 (Deallocate 1 (Deallocate 1 s1 (as ! 299)) (as ! 298)) of (x, s4) \<Rightarrow>
        (as, x, s4))"

section \<open>Memory, headers and pages\<close>


subsection \<open>Bytes\<close>

lemma cat16 [simp]:
  "word_cat (ucast (drop_bit 8 v) :: 8 word) (ucast v :: 8 word) = (v :: 16 word)"
  by (rule bit_word_eqI) (auto simp: bit_simps)

lemma cat32 [simp]:
  "word_cat (ucast (drop_bit 16 v) :: 16 word) (ucast v :: 16 word) = (v :: 32 word)"
  by (rule bit_word_eqI) (auto simp: bit_simps)

lemma cat64 [simp]:
  "word_cat (ucast (drop_bit 32 v) :: 32 word) (ucast v :: 32 word) = (v :: 64 word)"
  by (rule bit_word_eqI) (auto simp: bit_simps)

lemma load_store_u16 [simp]: "load_u16 (store_u16 m a v) a = v"
  by (simp add: load_u16_def store_u16_def)

lemma load_store_u32 [simp]: "load_u32 (store_u32 m a v) a = v"
  by (simp add: load_u32_def store_u32_def load_u16_def store_u16_def)

lemma load_store_ptr [simp]: "load_ptr (store_ptr m a v) a = v"
  by (simp add: load_ptr_def store_ptr_def load_u32_def store_u32_def load_u16_def store_u16_def)

lemma store_u16_other: "x \<noteq> a \<Longrightarrow> x \<noteq> a + 1 \<Longrightarrow> store_u16 m a v x = m x"
  by (simp add: store_u16_def)

lemma store_ptr_other:
  "x \<noteq> a \<Longrightarrow> x \<noteq> a + 1 \<Longrightarrow> x \<noteq> a + 2 \<Longrightarrow> x \<noteq> a + 3 \<Longrightarrow> x \<noteq> a + 4 \<Longrightarrow> x \<noteq> a + 5 \<Longrightarrow>
   x \<noteq> a + 6 \<Longrightarrow> x \<noteq> a + 7 \<Longrightarrow> store_ptr m a v x = m x"
  by (simp add: store_ptr_def store_u32_def store_u16_def add.assoc)

lemma kInvalidIdx_eq: "kInvalidIdx = 0xFFFF"
  by (simp add: kInvalidIdx_def)

subsection \<open>Headers\<close>

lemmas hdr_defs = free_idx_def begin_idx_def used_count_def next_pool_def
  set_free_idx_def set_begin_idx_def set_used_count_def set_next_pool_def

lemma hdr_cong:
  assumes "\<And>c::addr. c < 16 \<Longrightarrow> m' (p + c) = m (p + c)"
  shows "free_idx m' p = free_idx m p" "begin_idx m' p = begin_idx m p"
    "used_count m' p = used_count m p" "next_pool m' p = next_pool m p"
  using assms[of 0] assms[of 1] assms[of 2] assms[of 3] assms[of 4] assms[of 5] assms[of 6]
    assms[of 7] assms[of 8] assms[of 9] assms[of 10] assms[of 11] assms[of 12] assms[of 13]
    assms[of 14] assms[of 15]
  by (simp_all add: hdr_defs load_u16_def load_u32_def load_ptr_def add.assoc)

lemma hdr_same [simp]:
  "free_idx (set_free_idx m p v) p = v"
  "free_idx (set_begin_idx m p w) p = free_idx m p"
  "free_idx (set_used_count m p w) p = free_idx m p"
  "free_idx (set_next_pool m p x) p = free_idx m p"
  "begin_idx (set_free_idx m p w) p = begin_idx m p"
  "begin_idx (set_begin_idx m p v) p = v"
  "begin_idx (set_used_count m p w) p = begin_idx m p"
  "begin_idx (set_next_pool m p x) p = begin_idx m p"
  "used_count (set_free_idx m p w) p = used_count m p"
  "used_count (set_begin_idx m p w) p = used_count m p"
  "used_count (set_used_count m p v) p = v"
  "used_count (set_next_pool m p x) p = used_count m p"
  by (simp_all add: hdr_defs load_u16_def store_u16_def store_ptr_def store_u32_def add.assoc)

lemma next_pool_same [simp]:
  "next_pool (set_free_idx m p w) p = next_pool m p"
  "next_pool (set_begin_idx m p w) p = next_pool m p"
  "next_pool (set_used_count m p w) p = next_pool m p"
  by (simp_all add: hdr_defs load_u16_def load_u32_def load_ptr_def store_u16_def add.assoc)

lemma next_pool_set_next_pool [simp]: "next_pool (set_next_pool m p x) p = x"
  by (simp add: next_pool_def set_next_pool_def)

lemma far_neq:
  fixes p q i j :: addr
  assumes "far p q" "i < 16" "j < 16"
  shows "p + i \<noteq> q + j"
proof
  assume e: "p + i = q + j"
  then have d1: "q - p = i - j" by (simp add: algebra_simps)
  from e have d2: "p - q = j - i" using e[symmetric] by (simp add: algebra_simps)
  show False
  proof (cases "j \<le> i")
    case True
    then have "i - j \<le> i" by (simp add: word_sub_le)
    then have "q - p < 16" using d1 assms(2) by simp
    then show False using assms(1) by (auto simp: far_def)
  next
    case False
    then have "i \<le> j" by simp
    then have "j - i \<le> j" by (simp add: word_sub_le)
    then have "p - q < 16" using d2 assms(3) by simp
    then show False using assms(1) by (auto simp: far_def)
  qed
qed

lemma far_sym: "far p q \<Longrightarrow> far q p"
  by (simp add: far_def)

lemma far_neqs:
  fixes p q i j :: addr
  assumes "far p q"
  shows "i < 16 \<Longrightarrow> j < 16 \<Longrightarrow> (p + i = q + j) = False"
    "i < 16 \<Longrightarrow> (p + i = q) = False"
    "j < 16 \<Longrightarrow> (p = q + j) = False"
    "(p = q) = False"
  using far_neq[OF assms, of i j] far_neq[OF assms, of i 0] far_neq[OF assms, of 0 j]
    far_neq[OF assms, of 0 0]
  by simp_all

lemma set_frame:
  fixes c :: addr
  assumes "far p q" "c < 16"
  shows "set_free_idx m q v (p + c) = m (p + c)"
    "set_begin_idx m q v (p + c) = m (p + c)"
    "set_used_count m q v (p + c) = m (p + c)"
    "set_next_pool m q x (p + c) = m (p + c)"
  using assms
  by (simp_all add: hdr_defs store_u16_other store_ptr_other add.assoc far_neqs)

lemma hdr_far [simp]:
  assumes "far p q"
  shows
  "free_idx (set_free_idx m q v) p = free_idx m p"
  "free_idx (set_begin_idx m q v) p = free_idx m p"
  "free_idx (set_used_count m q v) p = free_idx m p"
  "free_idx (set_next_pool m q x) p = free_idx m p"
  "begin_idx (set_free_idx m q v) p = begin_idx m p"
  "begin_idx (set_begin_idx m q v) p = begin_idx m p"
  "begin_idx (set_used_count m q v) p = begin_idx m p"
  "begin_idx (set_next_pool m q x) p = begin_idx m p"
  "used_count (set_free_idx m q v) p = used_count m p"
  "used_count (set_begin_idx m q v) p = used_count m p"
  "used_count (set_used_count m q v) p = used_count m p"
  "used_count (set_next_pool m q x) p = used_count m p"
  "next_pool (set_free_idx m q v) p = next_pool m p"
  "next_pool (set_begin_idx m q v) p = next_pool m p"
  "next_pool (set_used_count m q v) p = next_pool m p"
  "next_pool (set_next_pool m q x) p = next_pool m p"
  by (rule hdr_cong, rule set_frame[OF assms], assumption)+


subsection \<open>Pages\<close>

lemma fff_mask: "(0xFFF :: addr) = mask 12" by (simp add: mask_eq_exp_minus_1)

lemma aligned_bit:
  fixes p :: addr
  assumes "page_aligned p"
  shows "bit p n \<Longrightarrow> 12 \<le> n"
proof (rule ccontr)
  assume b: "bit p n" and "\<not> 12 \<le> n"
  then have "bit (p AND mask 12) n" by (simp add: bit_simps)
  then show False using assms by (simp add: fff_mask page_aligned_def)
qed

lemma small_bit:
  fixes off :: addr
  assumes "off < 0x1000"
  shows "bit off n \<Longrightarrow> n < 12"
proof -
  assume b: "bit off n"
  have "off AND mask 12 = off" using assms by (simp add: less_mask_eq)
  then have "bit (off AND mask 12) n" using b by simp
  then show "n < 12" by (simp add: bit_simps)
qed

lemma aligned_and_off:
  fixes p off :: addr
  assumes "page_aligned p" "off < 0x1000"
  shows "p AND off = 0"
  by (rule bit_word_eqI) (use aligned_bit[OF assms(1)] small_bit[OF assms(2)] in \<open>fastforce simp: bit_simps\<close>)

lemma page_add_or:
  fixes p off :: addr
  assumes "page_aligned p" "off < 0x1000"
  shows "p + off = p OR off"
  using aligned_and_off[OF assms] by (rule disjunctive_add_eq_or)

lemma page_mask_add:
  fixes p off :: addr
  assumes "page_aligned p" "off < 0x1000"
  shows "(p + off) AND NOT 0xFFF = p"
  unfolding page_add_or[OF assms] fff_mask
proof (rule bit_word_eqI)
  fix n
  show "bit ((p OR off) AND NOT (mask 12)) n \<longleftrightarrow> bit p n"
    using aligned_bit[OF assms(1), of n] small_bit[OF assms(2), of n] by (auto simp: bit_simps dest: bit_imp_le_length)
qed

lemma page_off:
  fixes p off :: addr
  assumes "page_aligned p" "off < 0x1000"
  shows "(p + off) AND 0xFFF = off"
  unfolding page_add_or[OF assms] fff_mask
proof (rule bit_word_eqI)
  fix n
  show "bit ((p OR off) AND mask 12) n \<longleftrightarrow> bit off n"
    using aligned_bit[OF assms(1), of n] small_bit[OF assms(2), of n] by (auto simp: bit_simps dest: bit_imp_le_length)
qed

lemma page_add_inj:
  fixes p q :: addr
  assumes "page_aligned p" "page_aligned q" "i < 0x1000" "j < 0x1000" "p + i = q + j"
  shows "p = q \<and> i = j"
  using page_mask_add[OF assms(1,3)] page_mask_add[OF assms(2,4)] page_off[OF assms(1,3)] page_off[OF assms(2,4)] assms(5)
  by simp


lemma page_mask:
  "page_aligned p \<Longrightarrow> off < 0x1000 \<Longrightarrow> (p + off) AND kPageMask = p"
  unfolding kPageMask_def by (rule page_mask_add)

lemma aligned_far:
  assumes "page_aligned p" "page_aligned q" "p \<noteq> q"
  shows "far p q"
proof -
  have "\<not> d < 16" if "q = p + d" for d :: addr
  proof
    assume "d < 16"
    then have "d < 0x1000" using order.strict_trans[of d 16 "0x1000"] by simp
    with page_add_inj[OF assms(2,1), of 0 d] that assms(3) show False by simp
  qed
  moreover have "\<not> d < 16" if "p = q + d" for d :: addr
  proof
    assume "d < 16"
    then have "d < 0x1000" using order.strict_trans[of d 16 "0x1000"] by simp
    with page_add_inj[OF assms(1,2), of 0 d] that assms(3) show False by simp
  qed
  ultimately have "\<not> q - p < 16" "\<not> p - q < 16" by simp_all
  then show ?thesis by (simp add: far_def not_less)
qed

subsection \<open>Small intervals\<close>

lemma upt_2: "[0..<2] = [0, 1]"
  by code_simp

lemma upt_3: "[0..<3] = [0, 1, 2]"
  by code_simp

lemma upt_8: "[0..<8] = [0, 1, 2, 3, 4, 5, 6, 7]"
  by code_simp

subsection \<open>The 1-byte layout and its chained chunks\<close>

lemma layout_1 [simp]:
  "sizeof_Chip (Suc 0) = 1" "sizeof_Header (Suc 0) = 16" "kUsableSize (Suc 0) = 496" "kChipCount (Suc 0) = 496"
  "sizeof_SubPool (Suc 0) = 512"
  by (simp_all add: sizeof_Chip_def sizeof_next_idx_def sizeof_Header_def kUsableSize_def
      kChipCount_def sizeof_SubPool_def kPageSize_def)

lemma link_loop_8:
  "link_loop (Suc 0) (Suc 0) 8 tmp m =
    (tmp + 3584,
      set_next_pool (set_free_idx
      (set_next_pool (set_free_idx
      (set_next_pool (set_free_idx
      (set_next_pool (set_free_idx
      (set_next_pool (set_free_idx
      (set_next_pool (set_free_idx
      (set_next_pool (set_free_idx m tmp kInvalidIdx) tmp (tmp + 512))
        (tmp + 512) kInvalidIdx) (tmp + 512) (tmp + 1024))
        (tmp + 1024) kInvalidIdx) (tmp + 1024) (tmp + 1536))
        (tmp + 1536) kInvalidIdx) (tmp + 1536) (tmp + 2048))
        (tmp + 2048) kInvalidIdx) (tmp + 2048) (tmp + 2560))
        (tmp + 2560) kInvalidIdx) (tmp + 2560) (tmp + 3072))
        (tmp + 3072) kInvalidIdx) (tmp + 3072) (tmp + 3584))"
  apply (subst link_loop.simps, simp)
  apply (subst link_loop.simps, simp)
  apply (subst link_loop.simps, simp)
  apply (subst link_loop.simps, simp)
  apply (subst link_loop.simps, simp)
  apply (subst link_loop.simps, simp)
  apply (subst link_loop.simps, simp)
  apply (subst link_loop.simps, simp add: ac_simps)
  done

section \<open>Slots\<close>

subsection \<open>Layout bounds\<close>

lemma sizeof_Chip_pos: "0 < sizeof_Chip tsz"
  by (auto simp: sizeof_Chip_def sizeof_next_idx_def Let_def max_def)

lemma kUsableSize_le: "kUsableSize tsz \<le> 4080"
  by (simp add: kUsableSize_def kPageSize_def sizeof_Header_def)

lemma kChipCount_le: "kChipCount tsz \<le> 4080"
  unfolding kChipCount_def using kUsableSize_le[of tsz] div_le_dividend[of "kUsableSize tsz" "sizeof_Chip tsz"]
  by linarith

lemma layout_8:
  "sizeof_Header 8 = 16" "sizeof_Chip 8 = 8" "kUsableSize 8 = 4080" "kChipCount 8 = 510"
  by (simp_all add: sizeof_Chip_def sizeof_next_idx_def sizeof_Header_def kUsableSize_def
      kChipCount_def kPageSize_def)

lemma layout_2040:
  "sizeof_Chip 2040 = 2040" "kChipCount 2040 = 2"
  by (simp_all add: sizeof_Chip_def sizeof_next_idx_def sizeof_Header_def kUsableSize_def
      kChipCount_def kPageSize_def)

lemma valid_sizes:
  "is_valid_chip_v 1" "is_valid_chip_v 8" "is_valid_chip_v 2040"
  by (simp_all add: is_valid_chip_v_def kUsableSize_def kPageSize_def sizeof_Header_def)

lemma chip_end_le:
  assumes "i < kChipCount tsz"
  shows "16 + i * sizeof_Chip tsz + sizeof_Chip tsz \<le> 4096"
proof -
  have "Suc i \<le> kUsableSize tsz div sizeof_Chip tsz" using assms by (simp add: kChipCount_def)
  then have "Suc i * sizeof_Chip tsz \<le> (kUsableSize tsz div sizeof_Chip tsz) * sizeof_Chip tsz"
    by (rule mult_le_mono1)
  also have "\<dots> \<le> kUsableSize tsz" by simp
  finally show ?thesis using kUsableSize_le[of tsz] by simp
qed

lemma chip_addr_off: "chip_addr tsz p i = p + of_nat (16 + i * sizeof_Chip tsz)"
  by (simp add: chip_addr_def usable_mems_def sizeof_Header_def)

lemma of_nat_less_page:
  "n < 4096 \<Longrightarrow> (of_nat n :: addr) < 0x1000"
  by (simp add: word_less_nat_alt unat_of_nat)

lemma chip_addr_mask:
  assumes "page_aligned p" "i < kChipCount tsz"
  shows "chip_addr tsz p i AND kPageMask = p"
proof -
  have "16 + i * sizeof_Chip tsz < 4096"
    using chip_end_le[OF assms(2)] sizeof_Chip_pos[of tsz] by linarith
  then show ?thesis
    unfolding chip_addr_off by (intro page_mask[OF assms(1)] of_nat_less_page)
qed

lemma unat_of_nat_addr: "n < 4097 \<Longrightarrow> unat (of_nat n :: addr) = n"
  by (simp add: unat_of_nat)

lemma le_of_nat_addr: "16 \<le> n \<Longrightarrow> n < 4097 \<Longrightarrow> (16 :: addr) \<le> of_nat n"
  by (simp add: word_le_nat_alt unat_of_nat)

lemma chip_idx:
  assumes "i < kChipCount tsz"
  shows "(chip_addr tsz p i - usable_mems tsz p) div of_nat (sizeof_Chip tsz) = of_nat i"
proof -
  define c where "c = sizeof_Chip tsz"
  define n where "n = i * c"
  have b: "n < 4097" "c < 4097" "0 < c"
    using chip_end_le[OF assms] sizeof_Chip_pos[of tsz] by (simp_all add: n_def c_def)
  have "chip_addr tsz p i - usable_mems tsz p = of_nat n"
    by (simp add: chip_addr_def n_def c_def)
  moreover have "(of_nat n :: addr) div of_nat c = of_nat (n div c)"
    by (simp only: word_arith_nat_div unat_of_nat_addr[OF b(1)] unat_of_nat_addr[OF b(2)])
  moreover have "n div c = i" using b(3) by (simp add: n_def)
  ultimately show ?thesis by (simp add: c_def)
qed

lemma ucast_idx: "ucast (of_nat i :: addr) = (of_nat i :: 16 word)"
  by (rule bit_word_eqI) (auto simp: bit_simps)

lemma unat_idx: "i \<le> 4080 \<Longrightarrow> unat (of_nat i :: 16 word) = i"
  by (simp add: unat_of_nat)

lemma chip_outside_hdr:
  assumes "i < kChipCount tsz"
  shows "16 \<le> chip_addr tsz p i - p" "16 \<le> chip_addr tsz p i + 1 - p"
proof -
  define n where "n = 16 + i * sizeof_Chip tsz"
  have b: "16 \<le> n" "n < 4096"
    using chip_end_le[OF assms] sizeof_Chip_pos[of tsz] by (simp_all add: n_def)
  have "chip_addr tsz p i - p = of_nat n"
    by (simp add: chip_addr_off n_def)
  then show "16 \<le> chip_addr tsz p i - p"
    using le_of_nat_addr[of n] b by simp
  have "chip_addr tsz p i + 1 - p = of_nat (Suc n)"
    by (simp add: chip_addr_off n_def)
  then show "16 \<le> chip_addr tsz p i + 1 - p"
    using le_of_nat_addr[of "Suc n"] b by (simp del: of_nat_Suc)
qed

subsection \<open>The link field of a slot\<close>

lemma link_frame:
  "x \<noteq> a \<Longrightarrow> x \<noteq> a + 1 \<Longrightarrow> store_next_idx tsz m a v x = m x"
  by (simp add: store_next_idx_def store_u8_def store_u16_def)

lemma outside_hdr_neq:
  fixes a p c :: addr
  assumes "16 \<le> a - p" "c < 16"
  shows "p + c \<noteq> a"
proof
  assume "p + c = a"
  then have "a - p = c" by auto
  with assms show False by simp
qed

lemma hdr_link [simp]:
  assumes "16 \<le> a - p" "16 \<le> a + 1 - p"
  shows "free_idx (store_next_idx tsz m a v) p = free_idx m p"
    "begin_idx (store_next_idx tsz m a v) p = begin_idx m p"
    "used_count (store_next_idx tsz m a v) p = used_count m p"
    "next_pool (store_next_idx tsz m a v) p = next_pool m p"
  by (rule hdr_cong, rule link_frame, erule outside_hdr_neq[OF assms(1)],
      erule outside_hdr_neq[OF assms(2)])+

subsection \<open>Steps of Allocate\<close>

lemma take_slot_bump:
  assumes "free_idx (mem s) (cur_pool s) = kInvalidIdx"
  shows "take_slot tsz s =
    (chip_addr tsz (cur_pool s) (unat (begin_idx (mem s) (cur_pool s))),
     s\<lparr>mem := set_begin_idx (set_used_count (mem s) (cur_pool s) (used_count (mem s) (cur_pool s) + 1))
              (cur_pool s) (begin_idx (mem s) (cur_pool s) + 1)\<rparr>)"
  using assms by (simp add: take_slot_def Let_def IsFreeIdxValid_def BeginMem_def)

lemma take_slot_pop:
  assumes "free_idx (mem s) (cur_pool s) \<noteq> kInvalidIdx"
  shows "take_slot tsz s =
    (chip_addr tsz (cur_pool s) (unat (free_idx (mem s) (cur_pool s))),
     s\<lparr>mem := set_free_idx (set_used_count (mem s) (cur_pool s) (used_count (mem s) (cur_pool s) + 1))
              (cur_pool s)
              (load_next_idx tsz
                 (set_used_count (mem s) (cur_pool s) (used_count (mem s) (cur_pool s) + 1))
                 (chip_addr tsz (cur_pool s) (unat (free_idx (mem s) (cur_pool s)))))\<rparr>)"
  using assms by (simp add: take_slot_def Let_def IsFreeIdxValid_def FreeMem_def)

lemma Allocate_nonfull:
  "cur_pool s \<noteq> 0 \<Longrightarrow> \<not> IsFull tsz (mem s) (cur_pool s) \<Longrightarrow> Allocate tsz s = take_slot tsz s"
  by (simp add: Allocate_def)

lemma Allocate_rotate:
  "cur_pool s \<noteq> 0 \<Longrightarrow> IsFull tsz (mem s) (cur_pool s) \<Longrightarrow> next_pool (mem s) (cur_pool s) \<noteq> 0 \<Longrightarrow>
   Allocate tsz s = take_slot tsz (s\<lparr>cur_pool := next_pool (mem s) (cur_pool s)\<rparr>)"
  by (simp add: Allocate_def)

lemma Allocate_grow:
  "cur_pool s \<noteq> 0 \<Longrightarrow> IsFull tsz (mem s) (cur_pool s) \<Longrightarrow> next_pool (mem s) (cur_pool s) = 0 \<Longrightarrow>
   Allocate tsz s = take_slot tsz (adopt (AllocSubPool tsz s))"
  by (simp add: Allocate_def)

lemma Allocate_first:
  "cur_pool s = 0 \<Longrightarrow>
   \<not> IsFull tsz (mem (adopt (AllocSubPool tsz s))) (cur_pool (adopt (AllocSubPool tsz s))) \<Longrightarrow>
   Allocate tsz s = take_slot tsz (adopt (AllocSubPool tsz s))"
  by (simp add: Allocate_def)

subsection \<open>Filling a chunk by bump allocation\<close>

lemma bump_mem_absorb [simp]:
  "set_begin_idx (set_used_count (bump_mem m p k) p v) p w = set_begin_idx (set_used_count m p v) p w"
  by (rule ext) (simp add: bump_mem_def hdr_defs store_u16_def)

lemma bump_mem_twice [simp]: "bump_mem (bump_mem m p j) p k = bump_mem m p k"
  by (simp add: bump_mem_def[of _ p k])

lemma bump_mem_hdr [simp]:
  "used_count (bump_mem m p k) p = of_nat k" "begin_idx (bump_mem m p k) p = of_nat k"
  "free_idx (bump_mem m p k) p = free_idx m p" "next_pool (bump_mem m p k) p = next_pool m p"
  by (simp_all add: bump_mem_def)

lemma bump_mem_far [simp]:
  "far q p \<Longrightarrow> used_count (bump_mem m p k) q = used_count m q"
  "far q p \<Longrightarrow> begin_idx (bump_mem m p k) q = begin_idx m q"
  "far q p \<Longrightarrow> free_idx (bump_mem m p k) q = free_idx m q"
  "far q p \<Longrightarrow> next_pool (bump_mem m p k) q = next_pool m q"
  by (simp_all add: bump_mem_def)

lemma Allocate_bump:
  assumes "cur_pool s = p" "p \<noteq> 0" "free_idx (mem s) p = kInvalidIdx"
    "used_count (mem s) p = of_nat k" "begin_idx (mem s) p = of_nat k" "k < kChipCount tsz"
  shows "Allocate tsz s = (chip_addr tsz p k, s\<lparr>mem := bump_mem (mem s) p (Suc k)\<rparr>)"
proof -
  have k: "unat (of_nat k :: 16 word) = k"
    using assms(6) kChipCount_le[of tsz] by (intro unat_idx) simp
  have "\<not> IsFull tsz (mem s) (cur_pool s)"
    using assms k by (simp add: IsFull_def)
  then have "Allocate tsz s = take_slot tsz s" using assms by (simp add: Allocate_nonfull)
  also have "\<dots> = (chip_addr tsz p k, s\<lparr>mem := bump_mem (mem s) p (Suc k)\<rparr>)"
    using assms k by (simp add: take_slot_bump bump_mem_def add.commute)
  finally show ?thesis .
qed

lemma fill:
  assumes "cur_pool s = p" "p \<noteq> 0" "free_idx (mem s) p = kInvalidIdx"
    "used_count (mem s) p = of_nat k" "begin_idx (mem s) p = of_nat k" "k + n \<le> kChipCount tsz"
  shows "Allocate_n tsz n s =
    (map (chip_addr tsz p) [k..<k + n], if n = 0 then s else s\<lparr>mem := bump_mem (mem s) p (k + n)\<rparr>)"
  using assms
proof (induction n arbitrary: s k)
  case 0
  then show ?case by simp
next
  case (Suc n)
  let ?s1 = "s\<lparr>mem := bump_mem (mem s) p (Suc k)\<rparr>"
  have a: "Allocate tsz s = (chip_addr tsz p k, ?s1)"
    using Suc.prems by (intro Allocate_bump) simp_all
  have b: "Allocate_n tsz n ?s1 =
    (map (chip_addr tsz p) [Suc k..<Suc k + n],
     if n = 0 then ?s1 else ?s1\<lparr>mem := bump_mem (mem ?s1) p (Suc k + n)\<rparr>)"
    using Suc.prems by (intro Suc.IH) simp_all
  have l: "[k..<k + Suc n] = k # [Suc k..<Suc k + n]"
    by (simp add: upt_conv_Cons)
  show ?case
    unfolding l Allocate_n.simps a prod.case b by simp
qed

subsection \<open>Acquiring a chunk\<close>

lemma AllocSubPool_shape:
  "AllocSubPool tsz s =
    (allocate s (alloc_calls s),
     s\<lparr>alloc_calls := Suc (alloc_calls s), mem := mem (snd (AllocSubPool tsz s))\<rparr>)"
  by (simp add: AllocSubPool_def Let_def split: prod.splits)

lemma AllocSubPool_mem_other:
  "tsz \<noteq> 1 \<Longrightarrow>
   mem (snd (AllocSubPool tsz s)) = set_free_idx (mem s) (allocate s (alloc_calls s)) kInvalidIdx"
  by (simp add: AllocSubPool_def Let_def)

lemma AllocSubPool_mem_1:
  "mem (snd (AllocSubPool (Suc 0) s)) =
    set_free_idx (snd (link_loop (Suc 0) (Suc 0) 8 (allocate s (alloc_calls s)) (mem s)))
      (allocate s (alloc_calls s) + 3584) kInvalidIdx"
  by (simp add: AllocSubPool_def Let_def kPageSize_def link_loop_8)

lemma AllocSubPool_hdr:
  fixes tsz s
  defines "p \<equiv> allocate s (alloc_calls s)"
  defines "M \<equiv> mem (snd (AllocSubPool tsz s))"
  shows "free_idx M p = kInvalidIdx" "used_count M p = used_count (mem s) p"
    "begin_idx M p = begin_idx (mem s) p"
proof -
  have "free_idx M p = kInvalidIdx \<and> used_count M p = used_count (mem s) p \<and>
    begin_idx M p = begin_idx (mem s) p"
  proof (cases "tsz = 1")
    case True
    then show ?thesis
      by (simp add: M_def p_def AllocSubPool_mem_1 link_loop_8 far_def)
  next
    case False
    then show ?thesis
      by (simp add: M_def p_def AllocSubPool_mem_other)
  qed
  then show "free_idx M p = kInvalidIdx" "used_count M p = used_count (mem s) p"
    "begin_idx M p = begin_idx (mem s) p" by simp_all
qed

lemma AllocSubPool_1_chain:
  fixes s
  defines "p \<equiv> allocate s (alloc_calls s)"
  defines "M \<equiv> mem (snd (AllocSubPool (Suc 0) s))"
  shows "next_pool M p = p + 512" "free_idx M (p + 512) = kInvalidIdx"
    "used_count M (p + 512) = used_count (mem s) (p + 512)"
    "begin_idx M (p + 512) = begin_idx (mem s) (p + 512)"
  by (simp_all add: M_def p_def AllocSubPool_mem_1 link_loop_8 far_def)

lemma adopt_AllocSubPool:
  "adopt (AllocSubPool tsz s) =
    s\<lparr>cur_pool := allocate s (alloc_calls s), alloc_calls := Suc (alloc_calls s),
      mem := mem (snd (AllocSubPool tsz s))\<rparr>"
  by (subst AllocSubPool_shape) (simp add: adopt_def)

text \<open>The first call on a Pool without a chunk behaves as a call on the Pool that has
  adopted the fresh chunk, when that chunk does not read as full.\<close>

lemma Allocate_fresh:
  assumes "cur_pool s = 0" "allocate s (alloc_calls s) \<noteq> 0"
    "unat (used_count (mem s) (allocate s (alloc_calls s))) \<noteq> kChipCount tsz"
  shows "Allocate tsz s = Allocate tsz (adopt (AllocSubPool tsz s))"
proof -
  let ?s1 = "adopt (AllocSubPool tsz s)"
  have c: "cur_pool ?s1 = allocate s (alloc_calls s)" by (simp add: adopt_AllocSubPool)
  have "used_count (mem ?s1) (cur_pool ?s1) = used_count (mem s) (allocate s (alloc_calls s))"
    by (simp add: adopt_AllocSubPool AllocSubPool_hdr)
  then have n: "\<not> IsFull tsz (mem ?s1) (cur_pool ?s1)"
    using assms(3) by (simp add: IsFull_def)
  have "Allocate tsz s = take_slot tsz ?s1"
    using assms(1) n by (rule Allocate_first)
  moreover have "Allocate tsz ?s1 = take_slot tsz ?s1"
    using assms(2) n c by (intro Allocate_nonfull) simp_all
  ultimately show ?thesis by simp
qed

lemma Allocate_n_fresh:
  assumes "cur_pool s = 0" "allocate s (alloc_calls s) \<noteq> 0"
    "unat (used_count (mem s) (allocate s (alloc_calls s))) \<noteq> kChipCount tsz" "0 < n"
  shows "Allocate_n tsz n s = Allocate_n tsz n (adopt (AllocSubPool tsz s))"
proof -
  obtain k where "n = Suc k" using assms(4) by (cases n) auto
  then show ?thesis using Allocate_fresh[OF assms(1-3)] by simp
qed

subsection \<open>The concrete strategy and memory\<close>

lemma zero_mem_hdr [simp]:
  "free_idx zero_mem p = 0" "begin_idx zero_mem p = 0" "used_count zero_mem p = 0"
  "next_pool zero_mem p = 0"
  by (simp_all add: hdr_defs zero_mem_def load_u16_def load_u32_def load_ptr_def word_cat_eq)

lemma zeroed_header_zero_mem [simp]: "zeroed_header zero_mem p"
  by (simp add: zeroed_header_def)

lemma pages_simps:
  "pages 0 = 0x10000" "pages (Suc 0) = 0x11000" "pages 1 = 0x11000" "pages 2 = 0x12000"
  by (simp_all add: pages_def)

lemma pages_facts [simp]:
  "pages 0 \<noteq> 0" "pages (Suc 0) \<noteq> 0" "pages (Suc 0) \<noteq> pages 0" "pages 0 \<noteq> pages (Suc 0)"
  "far (pages 0) (pages (Suc 0))" "far (pages (Suc 0)) (pages 0)"
  by (simp_all add: pages_simps far_def)

lemma page_aligned_pages [simp]: "page_aligned (pages k)"
proof -
  have "pages k = push_bit 12 (16 + of_nat k)"
    by (simp add: pages_def push_bit_eq_mult algebra_simps)
  then show ?thesis
    unfolding page_aligned_def fff_mask
    by (metis and.commute take_bit_eq_mask take_bit_push_bit diff_self_eq_0 push_bit_of_0 take_bit_0 le_refl)
qed

subsection \<open>Deallocate on a slot of a page-aligned chunk\<close>

lemma Deallocate_slot:
  assumes "page_aligned p" "i < kChipCount tsz"
  shows "Deallocate tsz s (chip_addr tsz p i) =
    (let s1 = (if IsFull tsz (mem s) p then
                 (if \<not> IsFull tsz (mem s) (cur_pool s)
                  then s\<lparr>mem := set_next_pool (mem s) p (cur_pool s)\<rparr>
                  else s)\<lparr>cur_pool := p\<rparr>
               else s);
         m2 = set_used_count (mem s1) p (used_count (mem s) p - 1)
     in if used_count (mem s) p = 1 then
          s1\<lparr>mem := set_begin_idx (set_free_idx m2 p kInvalidIdx) p 0\<rparr>
        else
          s1\<lparr>mem := set_free_idx (store_next_idx tsz m2 (chip_addr tsz p i) (free_idx (mem s) p))
                   p (of_nat i)\<rparr>)"
proof -
  have "used_count (mem s) p - 1 = 0 \<longleftrightarrow> used_count (mem s) p = 1" by auto
  then show ?thesis
    by (simp add: Deallocate_def Let_def chip_addr_mask[OF assms] chip_idx[OF assms(2)]
        ucast_idx IsEmpty_def)
qed

subsection \<open>The 16-bit counters\<close>

lemma unat_succ16: "unat x < 4081 \<Longrightarrow> unat (x + 1 :: 16 word) = Suc (unat x)"
  by (simp add: unat_word_ariths)

lemma unat_pred16: "0 < unat x \<Longrightarrow> unat (x - 1 :: 16 word) = unat x - 1"
  by (simp add: unat_minus_one unat_gt_0)

lemma unat_eq_1_iff: "(x :: 16 word) = 1 \<longleftrightarrow> unat x = 1"
  by (simp add: word_unat_eq_iff)

lemma unat_eq_0_iff: "(x :: 16 word) = 0 \<longleftrightarrow> unat x = 0"
  by (simp add: word_unat_eq_iff)

subsection \<open>A slot and the headers of other pages\<close>

lemma chip_second_byte:
  assumes "i < kChipCount tsz"
  shows "17 + i * sizeof_Chip tsz < 4096"
proof (cases "tsz = 1")
  case True
  then show ?thesis using assms by simp
next
  case False
  then have "2 \<le> sizeof_Chip tsz"
    by (auto simp: sizeof_Chip_def sizeof_next_idx_def Let_def max_def)
  then show ?thesis using chip_end_le[OF assms] by linarith
qed

lemma chip_outside_other:
  assumes "page_aligned p" "page_aligned q" "p \<noteq> q" "i < kChipCount tsz"
  shows "16 \<le> chip_addr tsz p i - q" "16 \<le> chip_addr tsz p i + 1 - q"
proof -
  define n where "n = 16 + i * sizeof_Chip tsz"
  have n: "Suc n < 4096" using chip_second_byte[OF assms(4)] by (simp add: n_def)
  have far: "\<not> p + of_nat k - q < 16" if "k < 4096" for k
  proof
    assume l: "p + of_nat k - q < 16"
    define d where "d = p + of_nat k - q"
    have "d < 0x1000" using l order.strict_trans[of d 16 "0x1000"] by (simp add: d_def)
    moreover have "p + of_nat k = q + d" by (simp add: d_def)
    ultimately show False
      using page_add_inj[OF assms(1,2) of_nat_less_page[OF that], of d] assms(3) by simp
  qed
  have a: "chip_addr tsz p i = p + of_nat n" "chip_addr tsz p i + 1 = p + of_nat (Suc n)"
    by (simp_all add: chip_addr_off n_def)
  show "16 \<le> chip_addr tsz p i - q"
    unfolding a(1) using far[of n] n by (simp add: not_less)
  show "16 \<le> chip_addr tsz p i + 1 - q"
    unfolding a(2) using far[of "Suc n"] n by (simp add: not_less del: of_nat_Suc)
qed

subsection \<open>Reading a link back\<close>

lemma hdr_write_frame:
  fixes x p :: addr
  assumes "16 \<le> x - p"
  shows "set_free_idx m p v x = m x" "set_begin_idx m p v x = m x"
    "set_used_count m p v x = m x" "set_next_pool m p w x = m x"
  using outside_hdr_neq[OF assms, of 0] outside_hdr_neq[OF assms, of 1]
    outside_hdr_neq[OF assms, of 2] outside_hdr_neq[OF assms, of 3]
    outside_hdr_neq[OF assms, of 4] outside_hdr_neq[OF assms, of 5]
    outside_hdr_neq[OF assms, of 8] outside_hdr_neq[OF assms, of 9]
    outside_hdr_neq[OF assms, of 10] outside_hdr_neq[OF assms, of 11]
    outside_hdr_neq[OF assms, of 12] outside_hdr_neq[OF assms, of 13]
    outside_hdr_neq[OF assms, of 14] outside_hdr_neq[OF assms, of 15]
  by (simp_all add: hdr_defs store_u16_other store_ptr_other add.assoc eq_commute[of x])

lemma link_hdr [simp]:
  assumes "16 \<le> a - p" "16 \<le> a + 1 - p"
  shows "load_next_idx tsz (set_free_idx m p v) a = load_next_idx tsz m a"
    "load_next_idx tsz (set_begin_idx m p v) a = load_next_idx tsz m a"
    "load_next_idx tsz (set_used_count m p v) a = load_next_idx tsz m a"
    "load_next_idx tsz (set_next_pool m p w) a = load_next_idx tsz m a"
  by (simp_all add: load_next_idx_def load_u8_def load_u16_def hdr_write_frame[OF assms(1)]
      hdr_write_frame[OF assms(2)])

lemma link_roundtrip [simp]:
  "tsz \<noteq> 1 \<Longrightarrow> load_next_idx tsz (store_next_idx tsz m a v) a = v"
  by (simp add: load_next_idx_def store_next_idx_def)

lemma Allocate_n_2:
  "Allocate_n tsz 2 s =
    (case Allocate tsz s of (a, s1) \<Rightarrow> case Allocate tsz s1 of (b, s2) \<Rightarrow> ([a, b], s2))"
  by (simp add: numeral_2_eq_2 split: prod.splits)

lemma Allocate_n_3:
  "Allocate_n tsz 3 s =
    (case Allocate tsz s of (a, s1) \<Rightarrow> case Allocate tsz s1 of (b, s2) \<Rightarrow>
       case Allocate tsz s2 of (c, s3) \<Rightarrow> ([a, b, c], s3))"
  by (simp add: numeral_3_eq_3 split: prod.splits)

text \<open>A Pool that has just adopted its first chunk, and \<open>n\<close> allocations from it.\<close>

lemma fresh_fill:
  assumes "page_aligned p" "p \<noteq> 0" "strategy 0 = p" "zeroed_header m p" "0 < n"
    "n \<le> kChipCount tsz"
  shows "Allocate_n tsz n (Pool_ctor strategy m) =
    (map (chip_addr tsz p) [0..<n],
     (adopt (AllocSubPool tsz (Pool_ctor strategy m)))
       \<lparr>mem := bump_mem (mem (adopt (AllocSubPool tsz (Pool_ctor strategy m)))) p n\<rparr>)"
proof -
  let ?s0 = "Pool_ctor strategy m"
  let ?s1 = "adopt (AllocSubPool tsz ?s0)"
  have z: "used_count m p = 0" "begin_idx m p = 0"
    using assms(4) by (simp_all add: zeroed_header_def)
  have s0: "cur_pool ?s0 = 0" "allocate ?s0 (alloc_calls ?s0) = p" "mem ?s0 = m"
    using assms(3) by (simp_all add: Pool_ctor_def)
  have "Allocate_n tsz n ?s0 = Allocate_n tsz n ?s1"
    using assms(2,5,6) s0 z by (intro Allocate_n_fresh) auto
  also have "\<dots> = (map (chip_addr tsz p) [0..<0 + n],
      if n = 0 then ?s1 else ?s1\<lparr>mem := bump_mem (mem ?s1) p (0 + n)\<rparr>)"
    using assms(2,6) s0 z AllocSubPool_hdr[of tsz ?s0]
    by (intro fill) (simp_all add: adopt_AllocSubPool)
  finally show ?thesis using assms(5) by simp
qed

subsection \<open>Slots of a 1-byte Pool\<close>

lemma chip_byte: "chip_addr (Suc 0) p j = p + of_nat (16 + j)"
  by (simp add: chip_addr_off)

lemma chained_slot: "chip_addr (Suc 0) (p + 512) i = chip_addr (Suc 0) p (512 + i)"
  by (simp add: chip_addr_def usable_mems_def)

lemma byte_slot_mask:
  assumes "page_aligned p" "j < 4080"
  shows "chip_addr (Suc 0) p j AND kPageMask = p"
  unfolding chip_byte using assms(2) by (intro page_mask[OF assms(1)] of_nat_less_page) simp

lemma byte_slot_idx: "chip_addr (Suc 0) p j - usable_mems (Suc 0) p = of_nat j"
  by (simp add: chip_addr_def)

lemma byte_slot_outside_hdr:
  assumes "j < 4080"
  shows "16 \<le> chip_addr (Suc 0) p j - p" "16 \<le> chip_addr (Suc 0) p j + 1 - p"
proof -
  define n where "n = 16 + j"
  have b: "16 \<le> n" "n < 4096" using assms by (simp_all add: n_def)
  have "chip_addr (Suc 0) p j - p = of_nat n"
    by (simp add: chip_byte n_def)
  then show "16 \<le> chip_addr (Suc 0) p j - p"
    using le_of_nat_addr[of n] b by simp
  have "chip_addr (Suc 0) p j + 1 - p = of_nat (Suc n)"
    by (simp add: chip_byte n_def)
  then show "16 \<le> chip_addr (Suc 0) p j + 1 - p"
    using le_of_nat_addr[of "Suc n"] b by (simp del: of_nat_Suc)
qed

lemma byte_slots_distinct: "n \<le> 4080 \<Longrightarrow> distinct (map (chip_addr (Suc 0) p) [0..<n])"
proof -
  assume n: "n \<le> 4080"
  have "inj_on (chip_addr (Suc 0) p) {0..<n}"
  proof (rule inj_onI)
    fix i j
    assume a: "i \<in> {0..<n}" "j \<in> {0..<n}" "chip_addr (Suc 0) p i = chip_addr (Suc 0) p j"
    then have "(of_nat (16 + i) :: addr) = of_nat (16 + j)"
      unfolding chip_byte by simp
    then have "unat (of_nat (16 + i) :: addr) = unat (of_nat (16 + j) :: addr)" by simp
    moreover have "16 + i < 4097" "16 + j < 4097" using a(1,2) n by simp_all
    ultimately show "i = j"
      using unat_of_nat_addr[of "16 + i"] unat_of_nat_addr[of "16 + j"] by simp
  qed
  then show ?thesis by (simp add: distinct_map)
qed

text \<open>\<^verbatim>\<open>Deallocate\<close> on any byte of the page of a page-aligned chunk, the header apart:
  the chunk it works on is the one at the base of the page.\<close>

lemma Deallocate_byte_slot:
  assumes "page_aligned p" "j < 4080"
  shows "Deallocate (Suc 0) s (chip_addr (Suc 0) p j) =
    (let s1 = (if IsFull (Suc 0) (mem s) p then
                 (if \<not> IsFull (Suc 0) (mem s) (cur_pool s)
                  then s\<lparr>mem := set_next_pool (mem s) p (cur_pool s)\<rparr>
                  else s)\<lparr>cur_pool := p\<rparr>
               else s);
         m2 = set_used_count (mem s1) p (used_count (mem s) p - 1)
     in if used_count (mem s) p = 1 then
          s1\<lparr>mem := set_begin_idx (set_free_idx m2 p kInvalidIdx) p 0\<rparr>
        else
          s1\<lparr>mem := set_free_idx
                   (store_next_idx (Suc 0) m2 (chip_addr (Suc 0) p j) (free_idx (mem s) p))
                   p (of_nat j)\<rparr>)"
proof -
  have "used_count (mem s) p - 1 = 0 \<longleftrightarrow> used_count (mem s) p = 1" by auto
  then show ?thesis
    by (simp add: Deallocate_def Let_def byte_slot_mask[OF assms] byte_slot_idx
        ucast_idx IsEmpty_def)
qed

lemma link_byte_roundtrip:
  "load_next_idx (Suc 0) (store_next_idx (Suc 0) m a v) a = ucast (ucast v :: 8 word)"
  by (simp add: load_next_idx_def store_next_idx_def load_u8_def store_u8_def)

subsection \<open>Two chained chunks, both full\<close>

lemma chained_fill_eq:
  defines "p \<equiv> pages 0"
  defines "s \<equiv> snd (snd chained_fill)"
  shows "fst chained_fill = map (chip_addr 1 p) [0..<496]"
    "fst (snd chained_fill) = map (chip_addr 1 (p + 512)) [0..<496]"
    "cur_pool s = p + 512"
    "used_count (mem s) p = 496" "begin_idx (mem s) p = 496" "free_idx (mem s) p = kInvalidIdx"
    "next_pool (mem s) p = p + 512"
    "used_count (mem s) (p + 512) = 496" "begin_idx (mem s) (p + 512) = 496"
    "free_idx (mem s) (p + 512) = kInvalidIdx"
proof -
  define X where "X = p + 512"
  define s1 where "s1 = adopt (AllocSubPool 1 (Pool_ctor pages zero_mem))"
  define sA where "sA = s1\<lparr>mem := bump_mem (mem s1) p 496\<rparr>"
  have "page_aligned p" by (simp add: p_def)
  moreover have "p \<noteq> 0" "far p X" "far X p" "X \<noteq> 0"
    by (simp_all add: p_def X_def far_def pages_simps)
  ultimately have al: "page_aligned p" "p \<noteq> 0" "far p X" "far X p" "X \<noteq> 0"
    by simp_all
  have rA: "Allocate_n 1 496 (Pool_ctor pages zero_mem) = (map (chip_addr 1 p) [0..<496], sA)"
    unfolding sA_def s1_def using al by (intro fresh_fill) (simp_all add: p_def)
  have h1: "cur_pool s1 = p" "free_idx (mem s1) p = kInvalidIdx" "next_pool (mem s1) p = X"
    "free_idx (mem s1) X = kInvalidIdx" "used_count (mem s1) X = 0" "begin_idx (mem s1) X = 0"
    using AllocSubPool_1_chain[of "Pool_ctor pages zero_mem"]
      AllocSubPool_hdr(1)[of 1 "Pool_ctor pages zero_mem"]
    by (simp_all add: s1_def adopt_AllocSubPool Pool_ctor_def p_def X_def)
  have hA: "cur_pool sA = p" "used_count (mem sA) p = 496" "begin_idx (mem sA) p = 496"
    "free_idx (mem sA) p = kInvalidIdx" "next_pool (mem sA) p = X"
    "free_idx (mem sA) X = kInvalidIdx" "used_count (mem sA) X = 0" "begin_idx (mem sA) X = 0"
    using al h1 by (simp_all add: sA_def)
  define sB1 where "sB1 = sA\<lparr>cur_pool := X, mem := bump_mem (mem sA) X 1\<rparr>"
  define sB where "sB = sB1\<lparr>mem := bump_mem (mem sB1) X 496\<rparr>"
  have "Allocate 1 sA = take_slot 1 (sA\<lparr>cur_pool := next_pool (mem sA) (cur_pool sA)\<rparr>)"
    using al hA by (intro Allocate_rotate) (simp_all add: IsFull_def)
  then have r1: "Allocate 1 sA = (chip_addr 1 X 0, sB1)"
    using hA by (simp add: take_slot_bump sB1_def bump_mem_def)
  have "Allocate_n 1 495 sB1 = (map (chip_addr 1 X) [1..<1 + 495],
      if (495::nat) = 0 then sB1 else sB1\<lparr>mem := bump_mem (mem sB1) X (1 + 495)\<rparr>)"
    using al hA by (intro fill) (simp_all add: sB1_def)
  then have f: "Allocate_n 1 495 sB1 = (map (chip_addr 1 X) [1..<496], sB)"
    by (simp add: sB_def)
  have li: "chip_addr 1 X 0 # map (chip_addr 1 X) [1..<496] = map (chip_addr 1 X) [0..<496]"
    by (simp add: upt_conv_Cons[of 0])
  have "Allocate_n 1 (Suc 495) sA = (chip_addr 1 X 0 # map (chip_addr 1 X) [1..<496], sB)"
    by (simp only: Allocate_n.simps r1 prod.case f)
  then have rB: "Allocate_n 1 496 sA = (map (chip_addr 1 X) [0..<496], sB)"
    unfolding li by simp
  have r: "chained_fill = (map (chip_addr 1 p) [0..<496], map (chip_addr 1 X) [0..<496], sB)"
    unfolding chained_fill_def rA prod.case rB by simp
  have hB: "cur_pool sB = X"
    "used_count (mem sB) p = 496" "begin_idx (mem sB) p = 496" "free_idx (mem sB) p = kInvalidIdx"
    "next_pool (mem sB) p = X"
    "used_count (mem sB) X = 496" "begin_idx (mem sB) X = 496"
    "free_idx (mem sB) X = kInvalidIdx"
    using al hA by (simp_all add: sB_def sB1_def)
  show "fst chained_fill = map (chip_addr 1 p) [0..<496]"
    "fst (snd chained_fill) = map (chip_addr 1 (p + 512)) [0..<496]"
    unfolding r X_def by simp_all
  show "cur_pool s = p + 512"
    "used_count (mem s) p = 496" "begin_idx (mem s) p = 496" "free_idx (mem s) p = kInvalidIdx"
    "next_pool (mem s) p = p + 512"
    "used_count (mem s) (p + 512) = 496" "begin_idx (mem s) (p + 512) = 496"
    "free_idx (mem s) (p + 512) = kInvalidIdx"
    unfolding s_def r snd_conv using hB by (simp_all add: X_def)
qed

section \<open>Recovering the chunk of a slot\<close>

text \<open>For a page-aligned chunk and a slot index in bounds, masking recovers the chunk:
  this is \<open>chip_addr_mask\<close>. The chunks a 1-byte Pool chains inside one page are not
  page-aligned, except the first.\<close>

lemma first_chained_slot:
  defines "s496 \<equiv> snd (Allocate_n 1 496 (Pool_ctor pages zero_mem))"
  shows "Allocate 1 s496 =
    (pages 0 + 528,
     s496\<lparr>cur_pool := pages 0 + 512,
       mem := set_begin_idx (set_used_count (mem s496) (pages 0 + 512) 1) (pages 0 + 512) 1\<rparr>)"
    "cur_pool s496 = pages 0" "used_count (mem s496) (pages 0) = 496"
    "used_count (mem s496) (pages 0 + 512) = 0"
proof -
  define p where "p = pages 0"
  define s1 where "s1 = adopt (AllocSubPool 1 (Pool_ctor pages zero_mem))"
  have "page_aligned p" by (simp add: p_def)
  moreover have "p \<noteq> 0" "far p (p + 512)" "far (p + 512) p" "p + 512 \<noteq> 0"
    by (simp_all add: p_def far_def pages_simps)
  ultimately have al: "page_aligned p" "p \<noteq> 0" "far p (p + 512)" "far (p + 512) p"
    "p + 512 \<noteq> 0"
    by simp_all
  have f: "Allocate_n 1 496 (Pool_ctor pages zero_mem) =
      (map (chip_addr 1 p) [0..<496], s1\<lparr>mem := bump_mem (mem s1) p 496\<rparr>)"
    unfolding s1_def using al by (intro fresh_fill) (simp_all add: p_def)
  have s: "s496 = s1\<lparr>mem := bump_mem (mem s1) p 496\<rparr>"
    unfolding s496_def f by simp
  have h1: "cur_pool s1 = p" "next_pool (mem s1) p = p + 512"
    "free_idx (mem s1) (p + 512) = kInvalidIdx" "used_count (mem s1) (p + 512) = 0"
    "begin_idx (mem s1) (p + 512) = 0"
    using AllocSubPool_1_chain[of "Pool_ctor pages zero_mem"]
    by (simp_all add: s1_def adopt_AllocSubPool Pool_ctor_def p_def)
  have h: "cur_pool s496 = p" "used_count (mem s496) p = 496" "next_pool (mem s496) p = p + 512"
    "free_idx (mem s496) (p + 512) = kInvalidIdx" "used_count (mem s496) (p + 512) = 0"
    "begin_idx (mem s496) (p + 512) = 0"
    using al h1 by (simp_all add: s)
  have "Allocate 1 s496 = take_slot 1 (s496\<lparr>cur_pool := next_pool (mem s496) (cur_pool s496)\<rparr>)"
    using al h by (intro Allocate_rotate) (simp_all add: IsFull_def)
  then show "Allocate 1 s496 =
    (pages 0 + 528,
     s496\<lparr>cur_pool := pages 0 + 512,
       mem := set_begin_idx (set_used_count (mem s496) (pages 0 + 512) 1) (pages 0 + 512) 1\<rparr>)"
    using h by (simp add: take_slot_bump chip_addr_def usable_mems_def p_def)
  show "cur_pool s496 = pages 0" "used_count (mem s496) (pages 0) = 496"
    "used_count (mem s496) (pages 0 + 512) = 0"
    using h by (simp_all add: p_def)
qed


text \<open>
  Claim C1, the behaviour of the code for a 1-byte object type. On a fresh Pool the first
  496 calls fill the first chunk of the page; the 497th call makes the second chained
  chunk, at offset 512 of the same page, current and returns its slot 0. Clearing the low
  12 bits of that pointer yields the base of the page, which is the first chunk and not
  the chunk that produced the slot. \<^verbatim>\<open>Deallocate\<close> on the pointer then decrements
  \<^verbatim>\<open>used_count\<close> of the first chunk (to 495) and leaves the owning chunk at 1.
\<close>

theorem chained_chunk_not_recovered:
  "is_valid_chip_v 1
   \<and> cur_pool (snd (Allocate 1 (snd (Allocate_n 1 496 (Pool_ctor pages zero_mem))))) = pages 0 + 512
   \<and> fst (Allocate 1 (snd (Allocate_n 1 496 (Pool_ctor pages zero_mem))))
       = chip_addr 1 (pages 0 + 512) 0
   \<and> fst (Allocate 1 (snd (Allocate_n 1 496 (Pool_ctor pages zero_mem)))) AND kPageMask = pages 0
   \<and> pages 0 \<noteq> pages 0 + 512
   \<and> unat (used_count (mem (Deallocate 1
         (snd (Allocate 1 (snd (Allocate_n 1 496 (Pool_ctor pages zero_mem)))))
         (fst (Allocate 1 (snd (Allocate_n 1 496 (Pool_ctor pages zero_mem)))))))
       (pages 0 + 512)) = 1
   \<and> unat (used_count (mem (Deallocate 1
         (snd (Allocate 1 (snd (Allocate_n 1 496 (Pool_ctor pages zero_mem)))))
         (fst (Allocate 1 (snd (Allocate_n 1 496 (Pool_ctor pages zero_mem)))))))
       (pages 0)) = 495"
proof -
  define p where "p = pages 0"
  define s where "s = snd (Allocate_n 1 496 (Pool_ctor pages zero_mem))"
  note f = first_chained_slot[folded s_def p_def]
  have al: "page_aligned p" by (simp add: p_def)
  have far: "far p (p + 512)" "far (p + 512) p" "16 \<le> p + 528 - (p + 512)"
    "16 \<le> p + 528 + 1 - (p + 512)" "16 \<le> p + 528 - p" "16 \<le> p + 528 + 1 - p"
    by (simp_all add: far_def)
  have m: "(p + 528) AND kPageMask = p"
    using al by (intro page_mask) simp_all
  have i: "ucast ((p + 528 - usable_mems 1 p) div of_nat (sizeof_Chip 1)) = (512 :: 16 word)"
    by (simp add: usable_mems_def)
  define s' where "s' = snd (Allocate 1 s)"
  have s': "s' = s\<lparr>cur_pool := p + 512,
       mem := set_begin_idx (set_used_count (mem s) (p + 512) 1) (p + 512) 1\<rparr>"
    unfolding s'_def f(1) by simp
  have h: "used_count (mem s') p = 496" "used_count (mem s') (p + 512) = 1" "cur_pool s' = p + 512"
    using f(2-) far by (simp_all add: s')
  have d: "Deallocate 1 s' (p + 528) = s'\<lparr>cur_pool := p, mem := set_free_idx (store_next_idx 1
      (set_used_count (set_next_pool (mem s') p (p + 512)) p 495) (p + 528)
      (free_idx (set_used_count (set_next_pool (mem s') p (p + 512)) p 495) p)) p 512\<rparr>"
    unfolding Deallocate_def m using h i by (simp add: Let_def IsFull_def IsEmpty_def)
  have "used_count (mem (Deallocate 1 s' (p + 528))) (p + 512) = 1"
    "used_count (mem (Deallocate 1 s' (p + 528))) p = 495"
    unfolding d using h far by simp_all
  then show ?thesis
    unfolding s_def[symmetric] p_def[symmetric] s'_def[symmetric] f(1)
    using m valid_sizes by (simp add: s' chip_addr_def usable_mems_def s'_def[symmetric] f(1))
qed

section \<open>A stale successor link\<close>

lemma stale_link_calls_eq:
  fixes tsz strategy m
  defines "p \<equiv> strategy 0" and "q \<equiv> strategy 1" and "N \<equiv> kChipCount tsz"
  defines "s \<equiv> snd (stale_link_calls tsz strategy m)"
  assumes "2 \<le> kChipCount tsz" "tsz \<noteq> 1" "page_aligned (strategy 0)" "page_aligned (strategy 1)"
    "strategy 0 \<noteq> 0" "strategy 1 \<noteq> 0" "strategy 1 \<noteq> strategy 0"
    "zeroed_header m (strategy 0)" "zeroed_header m (strategy 1)"
  shows "fst (stale_link_calls tsz strategy m) =
      map (chip_addr tsz p) [0..<N] @ map (chip_addr tsz q) [0..<N - 1] @
      [chip_addr tsz p 0, chip_addr tsz q (N - 1), chip_addr tsz p 0]"
    "cur_pool s = p" "unat (used_count (mem s) p) = N" "next_pool (mem s) p = q"
    "unat (used_count (mem s) q) = N" "unat (begin_idx (mem s) q) = N"
    "free_idx (mem s) q = kInvalidIdx"
proof -
  have N: "2 \<le> N" "N \<le> 4080" "kChipCount tsz = N"
    using assms(5) kChipCount_le[of tsz] by (simp_all add: N_def)
  have al: "page_aligned p" "page_aligned q" "p \<noteq> 0" "q \<noteq> 0" "far p q" "far q p"
    using assms(7-11) by (simp_all add: p_def q_def aligned_far)
  have z: "used_count m p = 0" "begin_idx m p = 0" "next_pool m p = 0" "used_count m q = 0"
    "begin_idx m q = 0"
    using assms(12,13) by (simp_all add: zeroed_header_def p_def q_def)
  define a where "a = chip_addr tsz p 0"
  have i0: "0 < kChipCount tsz" using N by simp
  have a: "16 \<le> a - p" "16 \<le> a + 1 - p" "16 \<le> a - q" "16 \<le> a + 1 - q"
    using chip_outside_hdr[OF i0, of p] chip_outside_other[OF al(1,2) _ i0] assms(11)
    by (auto simp: a_def p_def q_def)
  have inv: "kInvalidIdx \<noteq> 0" "0 \<noteq> kInvalidIdx" by (simp_all add: kInvalidIdx_def)
  note [simp] = IsFull_def N(3) unat_idx unat_succ16 unat_pred16 unat_eq_1_iff
  \<comment> \<open>the first chunk is acquired and filled\<close>
  define s1 where "s1 = adopt (AllocSubPool tsz (Pool_ctor strategy m))"
  define sA where "sA = s1\<lparr>mem := bump_mem (mem s1) p N\<rparr>"
  have rA: "Allocate_n tsz N (Pool_ctor strategy m) = (map (chip_addr tsz p) [0..<N], sA)"
    unfolding sA_def s1_def using al N assms(12)
    by (intro fresh_fill) (simp_all add: p_def)
  have h1: "mem s1 = set_free_idx m p kInvalidIdx" "cur_pool s1 = p" "alloc_calls s1 = 1"
    "allocate s1 = strategy"
    using assms(6)
    by (simp_all add: s1_def adopt_AllocSubPool AllocSubPool_mem_other Pool_ctor_def p_def)
  have hA: "cur_pool sA = p" "alloc_calls sA = 1" "allocate sA = strategy"
    "unat (used_count (mem sA) p) = N" "free_idx (mem sA) p = kInvalidIdx"
    "next_pool (mem sA) p = 0" "used_count (mem sA) q = 0" "begin_idx (mem sA) q = 0"
    using al N z by (simp_all add: sA_def h1)
  \<comment> \<open>the first chunk is full and has no successor: a second chunk is acquired, and all
      but one of its slots are handed out\<close>
  define sB0 where "sB0 = sA\<lparr>cur_pool := q, alloc_calls := 2,
      mem := set_free_idx (mem sA) q kInvalidIdx\<rparr>"
  define sB1 where "sB1 = sB0\<lparr>mem := bump_mem (mem sB0) q 1\<rparr>"
  define sB where "sB = sB0\<lparr>mem := bump_mem (mem sB0) q (N - 1)\<rparr>"
  have g: "adopt (AllocSubPool tsz sA) = sB0"
    using assms(6) by (simp add: adopt_AllocSubPool AllocSubPool_mem_other hA q_def sB0_def)
  have "Allocate tsz sA = take_slot tsz (adopt (AllocSubPool tsz sA))"
    using al hA by (intro Allocate_grow) simp_all
  then have r1: "Allocate tsz sA = (chip_addr tsz q 0, sB1)"
    using hA by (simp add: g take_slot_bump sB0_def sB1_def bump_mem_def)
  have e: "1 + (N - 2) = N - 1" "N - 1 = Suc (N - 2)" using N by simp_all
  have "Allocate_n tsz (N - 2) sB1 = (map (chip_addr tsz q) [1..<1 + (N - 2)],
      if N - 2 = 0 then sB1 else sB1\<lparr>mem := bump_mem (mem sB1) q (1 + (N - 2))\<rparr>)"
    using al hA N by (intro fill) (simp_all add: sB1_def sB0_def)
  then have f: "Allocate_n tsz (N - 2) sB1 = (map (chip_addr tsz q) [1..<N - 1],
      if N - 2 = 0 then sB1 else sB1\<lparr>mem := bump_mem (mem sB1) q (N - 1)\<rparr>)"
    unfolding e(1) .
  have st: "(if N - 2 = 0 then sB1 else sB1\<lparr>mem := bump_mem (mem sB1) q (N - 1)\<rparr>) = sB"
  proof (cases "N - 2 = 0")
    case True
    then have "N - 1 = 1" using N by simp
    then show ?thesis using True by (simp add: sB1_def sB_def)
  next
    case False
    then show ?thesis by (simp add: sB1_def sB_def)
  qed
  have li: "chip_addr tsz q 0 # map (chip_addr tsz q) [1..<N - 1]
      = map (chip_addr tsz q) [0..<N - 1]"
    using N by (simp add: upt_conv_Cons[of 0])
  have "Allocate_n tsz (Suc (N - 2)) sA = (chip_addr tsz q 0 # map (chip_addr tsz q) [1..<N - 1],
      if N - 2 = 0 then sB1 else sB1\<lparr>mem := bump_mem (mem sB1) q (N - 1)\<rparr>)"
    by (simp only: Allocate_n.simps r1 prod.case f)
  then have rB: "Allocate_n tsz (N - 1) sA = (map (chip_addr tsz q) [0..<N - 1], sB)"
    unfolding st li e(2)[symmetric] .
  have hB: "cur_pool sB = q" "unat (used_count (mem sB) p) = N"
    "free_idx (mem sB) p = kInvalidIdx" "next_pool (mem sB) p = 0"
    "unat (used_count (mem sB) q) = N - 1" "unat (begin_idx (mem sB) q) = N - 1"
    "free_idx (mem sB) q = kInvalidIdx"
    using al hA N by (simp_all add: sB_def sB0_def)
  \<comment> \<open>releasing a slot of the full first chunk links it to the second, current one\<close>
  define s3 where "s3 = Deallocate tsz sB a"
  have s3: "s3 = sB\<lparr>cur_pool := p, mem := set_free_idx (store_next_idx tsz
      (set_used_count (set_next_pool (mem sB) p q) p (used_count (mem sB) p - 1))
      a kInvalidIdx) p 0\<rparr>"
    unfolding s3_def a_def using al hB N
    by (subst Deallocate_slot) (simp_all add: Let_def)
  have h3: "cur_pool s3 = p" "unat (used_count (mem s3) p) = N - 1" "free_idx (mem s3) p = 0"
    "next_pool (mem s3) p = q" "unat (used_count (mem s3) q) = N - 1"
    "unat (begin_idx (mem s3) q) = N - 1" "free_idx (mem s3) q = kInvalidIdx"
    "load_next_idx tsz (mem s3) a = kInvalidIdx"
    using al hB a N assms(6) by (simp_all add: s3)
  \<comment> \<open>the released slot is popped, the first chunk is full again\<close>
  define s4 where "s4 = s3\<lparr>mem := set_free_idx
      (set_used_count (mem s3) p (used_count (mem s3) p + 1)) p kInvalidIdx\<rparr>"
  have "Allocate tsz s3 = take_slot tsz s3"
    using al h3 N by (intro Allocate_nonfull) simp_all
  then have r4: "Allocate tsz s3 = (a, s4)"
    using h3 a inv by (simp add: take_slot_pop s4_def a_def)
  have h4: "cur_pool s4 = p" "unat (used_count (mem s4) p) = N" "free_idx (mem s4) p = kInvalidIdx"
    "next_pool (mem s4) p = q" "unat (used_count (mem s4) q) = N - 1"
    "unat (begin_idx (mem s4) q) = N - 1" "free_idx (mem s4) q = kInvalidIdx"
    using al h3 N by (simp_all add: s4_def)
  \<comment> \<open>the first chunk is full, its successor is taken and becomes full too\<close>
  define s5 where "s5 = s4\<lparr>cur_pool := q, mem := set_begin_idx
      (set_used_count (mem s4) q (used_count (mem s4) q + 1)) q (begin_idx (mem s4) q + 1)\<rparr>"
  have "Allocate tsz s4 = take_slot tsz (s4\<lparr>cur_pool := next_pool (mem s4) (cur_pool s4)\<rparr>)"
    using al h4 by (intro Allocate_rotate) simp_all
  then have r5: "Allocate tsz s4 = (chip_addr tsz q (N - 1), s5)"
    using h4 by (simp add: take_slot_bump s5_def)
  have h5: "cur_pool s5 = q" "unat (used_count (mem s5) p) = N" "free_idx (mem s5) p = kInvalidIdx"
    "next_pool (mem s5) p = q" "unat (used_count (mem s5) q) = N"
    "unat (begin_idx (mem s5) q) = N" "free_idx (mem s5) q = kInvalidIdx"
    using al h4 N by (simp_all add: s5_def)
  \<comment> \<open>releasing from the full first chunk while the current chunk is full: the link to
      the second chunk stays\<close>
  define s6 where "s6 = Deallocate tsz s5 a"
  have s6: "s6 = s5\<lparr>cur_pool := p, mem := set_free_idx (store_next_idx tsz
      (set_used_count (mem s5) p (used_count (mem s5) p - 1)) a kInvalidIdx) p 0\<rparr>"
    unfolding s6_def a_def using al h5 N
    by (subst Deallocate_slot) (simp_all add: Let_def)
  have h6: "cur_pool s6 = p" "unat (used_count (mem s6) p) = N - 1" "free_idx (mem s6) p = 0"
    "next_pool (mem s6) p = q" "unat (used_count (mem s6) q) = N"
    "unat (begin_idx (mem s6) q) = N" "free_idx (mem s6) q = kInvalidIdx"
    "load_next_idx tsz (mem s6) a = kInvalidIdx"
    using al h5 a N assms(6) by (simp_all add: s6)
  \<comment> \<open>the released slot is popped, both chunks are full\<close>
  define s7 where "s7 = s6\<lparr>mem := set_free_idx
      (set_used_count (mem s6) p (used_count (mem s6) p + 1)) p kInvalidIdx\<rparr>"
  have "Allocate tsz s6 = take_slot tsz s6"
    using al h6 N by (intro Allocate_nonfull) simp_all
  then have r7: "Allocate tsz s6 = (a, s7)"
    using h6 a inv by (simp add: take_slot_pop s7_def a_def)
  have h7: "cur_pool s7 = p" "unat (used_count (mem s7) p) = N" "next_pool (mem s7) p = q"
    "unat (used_count (mem s7) q) = N" "unat (begin_idx (mem s7) q) = N"
    "free_idx (mem s7) q = kInvalidIdx"
    using al h6 N by (simp_all add: s7_def)
  have hd: "hd (map (chip_addr tsz p) [0..<N]) = a"
    using N by (simp add: a_def hd_map upt_conv_Cons[of 0])
  have r: "stale_link_calls tsz strategy m =
      (map (chip_addr tsz p) [0..<N] @ map (chip_addr tsz q) [0..<N - 1] @
        [a, chip_addr tsz q (N - 1), a], s7)"
    unfolding stale_link_calls_def N(3) rA prod.case rB hd s3_def[symmetric] r4 r5
      s6_def[symmetric] r7 by simp
  show "fst (stale_link_calls tsz strategy m) =
      map (chip_addr tsz p) [0..<N] @ map (chip_addr tsz q) [0..<N - 1] @
      [chip_addr tsz p 0, chip_addr tsz q (N - 1), chip_addr tsz p 0]"
    unfolding r a_def by simp
  show "cur_pool s = p" "unat (used_count (mem s) p) = N" "next_pool (mem s) p = q"
    "unat (used_count (mem s) q) = N" "unat (begin_idx (mem s) q) = N"
    "free_idx (mem s) q = kInvalidIdx"
    unfolding s_def r snd_conv using h7 by simp_all
qed


text \<open>The call after these: the current chunk is full, its successor link is followed
  without looking at the successor, which is full as well.\<close>

lemma stale_link_next:
  fixes tsz strategy m
  defines "s \<equiv> snd (stale_link_calls tsz strategy m)"
  assumes "2 \<le> kChipCount tsz" "tsz \<noteq> 1" "page_aligned (strategy 0)" "page_aligned (strategy 1)"
    "strategy 0 \<noteq> 0" "strategy 1 \<noteq> 0" "strategy 1 \<noteq> strategy 0"
    "zeroed_header m (strategy 0)" "zeroed_header m (strategy 1)"
  shows "Allocate tsz s =
    (chip_addr tsz (strategy 1) (kChipCount tsz),
     s\<lparr>cur_pool := strategy 1,
        mem := set_begin_idx (set_used_count (mem s) (strategy 1)
                 (used_count (mem s) (strategy 1) + 1))
               (strategy 1) (begin_idx (mem s) (strategy 1) + 1)\<rparr>)"
proof -
  note h = stale_link_calls_eq(2-)[OF assms(2-), folded s_def]
  have "Allocate tsz s = take_slot tsz (s\<lparr>cur_pool := next_pool (mem s) (cur_pool s)\<rparr>)"
    using h assms(6,7) by (intro Allocate_rotate) (simp_all add: IsFull_def)
  then show ?thesis
    using h by (simp add: take_slot_bump)
qed

text \<open>
  Claim C2, the behaviour of the code. For every object type with at least two slots per
  chunk (and more than one byte), on a strategy that returns two distinct, non-null,
  page-aligned pages with zero-initialised headers: after the valid calls of
  \<open>stale_link_calls\<close> (every release is of a live pointer), both chunks are full, the
  first one is current and still links to the second. The next \<^verbatim>\<open>Allocate\<close> makes the
  second chunk current. That chunk has no free-list entry and its \<^verbatim>\<open>begin_idx\<close> equals
  \<open>chip_count\<close>, so the bump path is taken at the end of the slot array: the pointer
  returned is \<^verbatim>\<open>&usable_mems[chip_count]\<close>, one slot past the array.
\<close>

theorem allocate_out_of_bounds:
  assumes "2 \<le> kChipCount tsz" "tsz \<noteq> 1" "page_aligned (strategy 0)" "page_aligned (strategy 1)"
    "strategy 0 \<noteq> 0" "strategy 1 \<noteq> 0" "strategy 1 \<noteq> strategy 0"
    "zeroed_header m (strategy 0)" "zeroed_header m (strategy 1)"
  shows "fst (stale_link_calls tsz strategy m) =
      map (chip_addr tsz (strategy 0)) [0..<kChipCount tsz] @
      map (chip_addr tsz (strategy 1)) [0..<kChipCount tsz - 1] @
      [chip_addr tsz (strategy 0) 0, chip_addr tsz (strategy 1) (kChipCount tsz - 1),
       chip_addr tsz (strategy 0) 0]
   \<and> \<not> IsFreeIdxValid (mem (snd (stale_link_calls tsz strategy m))) (strategy 1)
   \<and> \<not> IsNotBeginInEnd tsz (mem (snd (stale_link_calls tsz strategy m))) (strategy 1)
   \<and> cur_pool (snd (Allocate tsz (snd (stale_link_calls tsz strategy m)))) = strategy 1
   \<and> fst (Allocate tsz (snd (stale_link_calls tsz strategy m)))
       = chip_addr tsz (strategy 1) (kChipCount tsz)"
  unfolding stale_link_next[OF assms]
  using stale_link_calls_eq[OF assms]
  by (simp add: IsFreeIdxValid_def IsNotBeginInEnd_def)

theorem allocate_out_of_bounds_witness:
  "2 \<le> kChipCount 8 \<and> is_valid_chip_v 8 \<and> page_aligned (pages 0) \<and> page_aligned (pages 1)
   \<and> pages 0 \<noteq> 0 \<and> pages 1 \<noteq> 0 \<and> pages 1 \<noteq> pages 0
   \<and> zeroed_header zero_mem (pages 0) \<and> zeroed_header zero_mem (pages 1)
   \<and> kChipCount 8 = 510
   \<and> fst (Allocate 8 (snd (stale_link_calls 8 pages zero_mem))) = chip_addr 8 (pages 1) 510
   \<and> chip_addr 8 (pages 1) 510 AND kPageMask = pages 2"
proof -
  have h: "2 \<le> kChipCount 8" "(8::nat) \<noteq> 1" "page_aligned (pages 0)" "page_aligned (pages 1)"
    "pages 0 \<noteq> 0" "pages 1 \<noteq> 0" "pages 1 \<noteq> pages 0"
    "zeroed_header zero_mem (pages 0)" "zeroed_header zero_mem (pages 1)"
    by (simp_all add: layout_8)
  have m: "chip_addr 8 (pages 1) 510 AND kPageMask = pages 2"
    by (simp add: chip_addr_def usable_mems_def layout_8 kPageMask_def pages_simps)
  show ?thesis
    using allocate_out_of_bounds[OF h] h m valid_sizes by (simp add: layout_8)
qed

text \<open>
  Claim C3, the behaviour of the code. In the same run the second chunk is full
  (\<^verbatim>\<open>used_count == chip_count\<close>) before the last call, and that call increments its
  \<^verbatim>\<open>used_count\<close> once more: it is \<open>chip_count + 1\<close> afterwards, and the chunk no longer
  reads as full.
\<close>

theorem used_count_exceeds_chip_count:
  assumes "2 \<le> kChipCount tsz" "tsz \<noteq> 1" "page_aligned (strategy 0)" "page_aligned (strategy 1)"
    "strategy 0 \<noteq> 0" "strategy 1 \<noteq> 0" "strategy 1 \<noteq> strategy 0"
    "zeroed_header m (strategy 0)" "zeroed_header m (strategy 1)"
  shows "IsFull tsz (mem (snd (stale_link_calls tsz strategy m))) (strategy 1)
   \<and> unat (used_count (mem (snd (Allocate tsz (snd (stale_link_calls tsz strategy m)))))
         (strategy 1)) = kChipCount tsz + 1
   \<and> \<not> IsFull tsz (mem (snd (Allocate tsz (snd (stale_link_calls tsz strategy m)))))
         (strategy 1)"
  unfolding stale_link_next[OF assms]
  using stale_link_calls_eq[OF assms] kChipCount_le[of tsz]
  by (simp add: IsFull_def unat_succ16)

theorem used_count_exceeds_chip_count_witness:
  "2 \<le> kChipCount 8 \<and> is_valid_chip_v 8 \<and> page_aligned (pages 0) \<and> page_aligned (pages 1)
   \<and> pages 0 \<noteq> 0 \<and> pages 1 \<noteq> 0 \<and> pages 1 \<noteq> pages 0
   \<and> zeroed_header zero_mem (pages 0) \<and> zeroed_header zero_mem (pages 1)
   \<and> IsFull 8 (mem (snd (stale_link_calls 8 pages zero_mem))) (pages 1)
   \<and> unat (used_count (mem (snd (Allocate 8 (snd (stale_link_calls 8 pages zero_mem)))))
         (pages 1)) = 511"
proof -
  have h: "2 \<le> kChipCount 8" "(8::nat) \<noteq> 1" "page_aligned (pages 0)" "page_aligned (pages 1)"
    "pages 0 \<noteq> 0" "pages 1 \<noteq> 0" "pages 1 \<noteq> pages 0"
    "zeroed_header zero_mem (pages 0)" "zeroed_header zero_mem (pages 1)"
    by (simp_all add: layout_8)
  show ?thesis
    using used_count_exceeds_chip_count[OF h] h valid_sizes by (simp add: layout_8)
qed

section \<open>Capacity of a chunk of 8-byte objects\<close>

text \<open>
  The claimed layout (header 24 bytes, 509 slots) is not the one the layout calculator
  computes for an 8-byte object type.
\<close>

theorem layout_8byte_counterexample:
  "sizeof_Header 8 \<noteq> 24 \<and> kChipCount 8 \<noteq> 509"
  by (simp add: layout_8)

text \<open>
  Claim C4, amended. For an 8-byte object type the header takes 16 bytes and the layout
  calculator yields \<open>chip_count = 510\<close>. Starting from an empty Pool whose strategy
  returns two distinct page-aligned pages with zero-initialised headers (the first one not
  null), the 1st through 510th \<^verbatim>\<open>Allocate\<close> calls return the slots 0 to 509 of the
  chunk in the first page, each of which masks back to that chunk; the chunk is not full
  after the 509th call and full after the 510th; the 511th call returns slot 0 of the
  chunk in the second page, which is then the current chunk.
\<close>

theorem capacity_8byte:
  assumes "page_aligned (strategy 0)" "page_aligned (strategy 1)" "strategy 0 \<noteq> 0"
    "strategy 1 \<noteq> strategy 0" "zeroed_header m (strategy 0)" "zeroed_header m (strategy 1)"
  shows "sizeof_Header 8 = 16 \<and> kChipCount 8 = 510
    \<and> fst (Allocate_n 8 510 (Pool_ctor strategy m)) = map (chip_addr 8 (strategy 0)) [0..<510]
    \<and> list_all (\<lambda>q. q AND kPageMask = strategy 0) (fst (Allocate_n 8 510 (Pool_ctor strategy m)))
    \<and> \<not> IsFull 8 (mem (snd (Allocate_n 8 509 (Pool_ctor strategy m)))) (strategy 0)
    \<and> IsFull 8 (mem (snd (Allocate_n 8 510 (Pool_ctor strategy m)))) (strategy 0)
    \<and> fst (Allocate 8 (snd (Allocate_n 8 510 (Pool_ctor strategy m)))) = chip_addr 8 (strategy 1) 0
    \<and> fst (Allocate 8 (snd (Allocate_n 8 510 (Pool_ctor strategy m)))) AND kPageMask = strategy 1
    \<and> cur_pool (snd (Allocate 8 (snd (Allocate_n 8 510 (Pool_ctor strategy m))))) = strategy 1"
proof -
  define p where "p = strategy 0"
  define q where "q = strategy 1"
  define s1 where "s1 = adopt (AllocSubPool 8 (Pool_ctor strategy m))"
  define sF where "sF = s1\<lparr>mem := bump_mem (mem s1) p 510\<rparr>"
  have pq: "far q p" "far p q"
    using assms(1,2,4) by (auto simp: p_def q_def intro: aligned_far)
  have z: "next_pool m p = 0" "begin_idx m q = 0"
    using assms(5,6) by (simp_all add: zeroed_header_def p_def q_def)
  have s1: "cur_pool s1 = p" "alloc_calls s1 = 1" "allocate s1 = strategy"
    "mem s1 = set_free_idx m p kInvalidIdx"
    by (simp_all add: s1_def adopt_AllocSubPool AllocSubPool_mem_other Pool_ctor_def p_def)
  have f510: "Allocate_n 8 510 (Pool_ctor strategy m) = (map (chip_addr 8 p) [0..<510], sF)"
    unfolding sF_def s1_def using assms(1,3,5)
    by (intro fresh_fill) (simp_all add: p_def layout_8)
  have f509: "Allocate_n 8 509 (Pool_ctor strategy m) =
      (map (chip_addr 8 p) [0..<509], s1\<lparr>mem := bump_mem (mem s1) p 509\<rparr>)"
    unfolding s1_def using assms(1,3,5)
    by (intro fresh_fill) (simp_all add: p_def layout_8)
  have same: "list_all (\<lambda>x. x AND kPageMask = p) (map (chip_addr 8 p) [0..<510])"
    using assms(1) by (simp add: list_all_iff chip_addr_mask layout_8 p_def)
  have full: "IsFull 8 (mem sF) p" "\<not> IsFull 8 (bump_mem (mem s1) p 509) p"
    by (simp_all add: sF_def IsFull_def layout_8 unat_idx)
  have sF: "cur_pool sF = p" "next_pool (mem sF) p = 0" "alloc_calls sF = 1"
    "allocate sF = strategy"
    using z by (simp_all add: sF_def s1)
  have grow: "Allocate 8 sF = take_slot 8 (adopt (AllocSubPool 8 sF))"
    using assms(3) full(1) sF by (intro Allocate_grow) (simp_all add: p_def)
  define s2 where "s2 = adopt (AllocSubPool 8 sF)"
  have s2: "cur_pool s2 = q" "free_idx (mem s2) q = kInvalidIdx" "begin_idx (mem s2) q = 0"
    using z pq
    by (simp_all add: s2_def adopt_AllocSubPool AllocSubPool_mem_other sF sF_def s1 q_def)
  have last: "Allocate 8 sF = (chip_addr 8 q 0,
      s2\<lparr>mem := set_begin_idx (set_used_count (mem s2) q (used_count (mem s2) q + 1)) q 1\<rparr>)"
    unfolding grow s2_def[symmetric] using s2 by (simp add: take_slot_bump)
  have m: "chip_addr 8 q 0 AND kPageMask = q"
    using assms(2) by (intro chip_addr_mask) (simp_all add: q_def layout_8)
  show ?thesis
    unfolding f510 f509 fst_conv snd_conv last p_def[symmetric] q_def[symmetric]
    using same full m s2(1) by (simp add: layout_8)
qed

theorem capacity_8byte_witness:
  "page_aligned (pages 0) \<and> page_aligned (pages 1) \<and> pages 0 \<noteq> 0 \<and> pages 1 \<noteq> pages 0
    \<and> zeroed_header zero_mem (pages 0) \<and> zeroed_header zero_mem (pages 1)
    \<and> fst (Allocate 8 (snd (Allocate_n 8 510 (Pool_ctor pages zero_mem)))) = chip_addr 8 (pages 1) 0
    \<and> IsFull 8 (mem (snd (Allocate_n 8 510 (Pool_ctor pages zero_mem)))) (pages 0)"
proof -
  have h: "page_aligned (pages 0)" "page_aligned (pages 1)" "pages 0 \<noteq> 0" "pages 1 \<noteq> pages 0"
    "zeroed_header zero_mem (pages 0)" "zeroed_header zero_mem (pages 1)"
    by simp_all
  show ?thesis using h capacity_8byte[OF h] by simp
qed

section \<open>The sentinel and the 1-byte link field\<close>

lemma link_1byte_roundtrip:
  "load_next_idx 1 (store_next_idx 1 m chip v) chip = ucast (ucast v :: 8 word)"
  by (simp add: load_next_idx_def store_next_idx_def load_u8_def store_u8_def)

lemma sentinel_run_eq:
  "\<exists>s. sentinel_run = (pages 0 + 16, pages 0 + 17, pages 0 + 16, s) \<and> cur_pool s = pages 0
    \<and> used_count (mem s) (pages 0) = 2 \<and> begin_idx (mem s) (pages 0) = 2
    \<and> free_idx (mem s) (pages 0) = 0xFF"
proof -
  define p where "p = pages 0"
  define s1 where "s1 = adopt (AllocSubPool 1 (Pool_ctor pages zero_mem))"
  define s2 where "s2 = s1\<lparr>mem := bump_mem (mem s1) p 2\<rparr>"
  have al: "page_aligned p" "p \<noteq> 0" by (simp_all add: p_def pages_def page_aligned_def)
  have c: "chip_addr 1 p 0 = p + 16" "chip_addr 1 p 1 = p + 17"
    by (simp_all add: chip_addr_def usable_mems_def)
  have s1: "cur_pool s1 = p" "free_idx (mem s1) p = kInvalidIdx"
    using AllocSubPool_hdr(1)[of 1 "Pool_ctor pages zero_mem"]
    by (simp_all add: s1_def adopt_AllocSubPool Pool_ctor_def p_def)
  have "Allocate_n 1 2 (Pool_ctor pages zero_mem) = (map (chip_addr 1 p) [0..<2], s2)"
    unfolding s2_def s1_def using al by (intro fresh_fill) (simp_all add: p_def)
  then have two: "Allocate_n 1 2 (Pool_ctor pages zero_mem) = ([p + 16, p + 17], s2)"
    using c by (simp add: upt_2 del: One_nat_def)
  define s3 where "s3 = Deallocate 1 s2 (p + 16)"
  have s3: "s3 = s2\<lparr>mem := set_free_idx
      (store_next_idx 1 (set_used_count (mem s2) p 1) (p + 16) kInvalidIdx) p 0\<rparr>"
    unfolding s3_def c(1)[symmetric] using al s1
    by (subst Deallocate_slot) (simp_all add: s2_def IsFull_def Let_def)
  have o: "16 \<le> p + 16 - p" "16 \<le> p + 16 + 1 - p" by simp_all
  have h3: "cur_pool s3 = p" "used_count (mem s3) p = 1" "free_idx (mem s3) p = 0"
    "begin_idx (mem s3) p = 2"
    using s1 o by (simp_all add: s3 s2_def)
  have "Allocate 1 s3 = take_slot 1 s3"
    using al h3 by (intro Allocate_nonfull) (simp_all add: IsFull_def)
  also have "\<dots> = (p + 16, s3\<lparr>mem := set_free_idx (set_used_count (mem s3) p 2) p
      (load_next_idx 1 (set_used_count (mem s3) p 2) (p + 16))\<rparr>)"
    using h3 c by (simp add: take_slot_pop kInvalidIdx_eq)
  finally have four: "Allocate 1 s3 = (p + 16, s3\<lparr>mem := set_free_idx (set_used_count (mem s3) p 2) p
      (load_next_idx 1 (set_used_count (mem s3) p 2) (p + 16))\<rparr>)" .
  have l: "load_next_idx 1 (set_used_count (mem s3) p 2) (p + 16) = 0xFF"
    by (simp add: s3 load_next_idx_def load_u8_def store_next_idx_def store_u8_def hdr_defs
        store_u16_def kInvalidIdx_eq)
  have run: "sentinel_run = (p + 16, p + 17, p + 16,
      s3\<lparr>mem := set_free_idx (set_used_count (mem s3) p 2) p 0xFF\<rparr>)"
    using two four l
    by (simp add: sentinel_run_def Allocate_n_2 s3_def split: prod.splits)
  show ?thesis
    unfolding run p_def[symmetric] using h3 by simp
qed

text \<open>
  Claim C5, the behaviour of the code for a 1-byte object type. The sentinel
  \<open>kInvalidIdx = 0xFFFF\<close> stored through the 1-byte link field of a slot reads back as
  \<open>0x00FF\<close>, not as the sentinel. On a fresh Pool: allocate \<open>a\<close> (slot 0) and \<open>b\<close>
  (slot 1), release \<open>a\<close>, allocate again (\<open>a\<close> is returned). Both slots are live now and
  no slot is free, yet \<^verbatim>\<open>free_idx\<close> of the chunk is 255 and the chunk reports a free-list
  entry.
\<close>

theorem sentinel_lost_in_1byte_link:
  "is_valid_chip_v 1
   \<and> load_next_idx 1 (store_next_idx 1 m chip kInvalidIdx) chip = 0xFF
   \<and> (0xFF :: 16 word) \<noteq> kInvalidIdx
   \<and> (case sentinel_run of (a, b, c, s) \<Rightarrow>
        a = chip_addr 1 (pages 0) 0 \<and> b = chip_addr 1 (pages 0) 1 \<and> c = a
        \<and> cur_pool s = pages 0
        \<and> unat (used_count (mem s) (pages 0)) = 2 \<and> unat (begin_idx (mem s) (pages 0)) = 2
        \<and> free_idx (mem s) (pages 0) = 0xFF \<and> IsFreeIdxValid (mem s) (pages 0))"
proof -
  obtain s where r: "sentinel_run = (pages 0 + 16, pages 0 + 17, pages 0 + 16, s)"
    and h: "cur_pool s = pages 0" "used_count (mem s) (pages 0) = 2"
      "begin_idx (mem s) (pages 0) = 2" "free_idx (mem s) (pages 0) = 0xFF"
    using sentinel_run_eq by blast
  have a: "load_next_idx 1 (store_next_idx 1 m chip kInvalidIdx) chip = 0xFF"
    by (simp add: load_next_idx_def store_next_idx_def load_u8_def store_u8_def kInvalidIdx_eq)
  show ?thesis
    unfolding r prod.case using a h valid_sizes
    by (simp add: kInvalidIdx_eq IsFreeIdxValid_def chip_addr_def usable_mems_def)
qed

section \<open>LIFO recycling of freed slots\<close>

lemma Allocate_pop:
  assumes "cur_pool s = p" "p \<noteq> 0" "\<not> IsFull tsz (mem s) p" "IsFreeIdxValid (mem s) p"
    "unat (free_idx (mem s) p) < kChipCount tsz"
  shows "fst (Allocate tsz s) = chip_addr tsz p (unat (free_idx (mem s) p))"
    "free_idx (mem (snd (Allocate tsz s))) p =
       load_next_idx tsz (mem s) (chip_addr tsz p (unat (free_idx (mem s) p)))"
    "cur_pool (snd (Allocate tsz s)) = p"
proof -
  have "Allocate tsz s = take_slot tsz s"
    using assms by (intro Allocate_nonfull) simp_all
  then show "fst (Allocate tsz s) = chip_addr tsz p (unat (free_idx (mem s) p))"
    "free_idx (mem (snd (Allocate tsz s))) p =
       load_next_idx tsz (mem s) (chip_addr tsz p (unat (free_idx (mem s) p)))"
    "cur_pool (snd (Allocate tsz s)) = p"
    using assms(1,4) chip_outside_hdr[OF assms(5), of p]
    by (simp_all add: take_slot_pop IsFreeIdxValid_def)
qed

lemma idx_valid: "i < kChipCount tsz \<Longrightarrow> (of_nat i :: 16 word) \<noteq> kInvalidIdx"
proof
  assume "i < kChipCount tsz" "(of_nat i :: 16 word) = kInvalidIdx"
  then have "unat (of_nat i :: 16 word) = 65535" "i \<le> 4080"
    using kChipCount_le[of tsz] by (simp_all add: kInvalidIdx_eq)
  then show False by (simp add: unat_idx)
qed

lemma Deallocate_then_Allocate:
  assumes "page_aligned p" "p \<noteq> 0" "i < kChipCount tsz"
    "cur_pool s = p \<or> IsFull tsz (mem s) p"
    "2 \<le> unat (used_count (mem s) p)" "unat (used_count (mem s) p) \<le> kChipCount tsz"
  shows "fst (Allocate tsz (Deallocate tsz s (chip_addr tsz p i))) = chip_addr tsz p i"
    "cur_pool (snd (Allocate tsz (Deallocate tsz s (chip_addr tsz p i)))) = p"
proof -
  define s' where "s' = Deallocate tsz s (chip_addr tsz p i)"
  define u where "u = used_count (mem s) p"
  have u: "u \<noteq> 1" "unat (u - 1) \<noteq> kChipCount tsz"
    using assms(5,6) by (auto simp: u_def unat_sub word_le_nat_alt)
  note o = chip_outside_hdr[OF assms(3), of p]
  have h: "cur_pool s' = p" "free_idx (mem s') p = of_nat i" "used_count (mem s') p = u - 1"
    using assms(4) u(1) o unfolding s'_def Deallocate_slot[OF assms(1,3)]
    by (auto simp: Let_def u_def)
  have "Allocate tsz s' = take_slot tsz s'"
    using assms(2) h u(2) by (intro Allocate_nonfull) (simp_all add: IsFull_def)
  then show "fst (Allocate tsz (Deallocate tsz s (chip_addr tsz p i))) = chip_addr tsz p i"
    "cur_pool (snd (Allocate tsz (Deallocate tsz s (chip_addr tsz p i)))) = p"
    using h idx_valid[OF assms(3)] assms(3) kChipCount_le[of tsz]
    unfolding s'_def[symmetric]
    by (simp_all add: take_slot_pop unat_idx)
qed


lemma lifo_scenario:
  assumes "page_aligned (strategy 0)" "strategy 0 \<noteq> 0" "zeroed_header m (strategy 0)"
    "3 \<le> kChipCount tsz"
  shows "fst (Allocate_n tsz 3 (Pool_ctor strategy m)) =
      [chip_addr tsz (strategy 0) 0, chip_addr tsz (strategy 0) 1, chip_addr tsz (strategy 0) 2]"
    "fst (Allocate tsz (Deallocate tsz (snd (Allocate_n tsz 3 (Pool_ctor strategy m)))
        (chip_addr tsz (strategy 0) 1))) = chip_addr tsz (strategy 0) 1"
proof -
  define p where "p = strategy 0"
  define s1 where "s1 = adopt (AllocSubPool tsz (Pool_ctor strategy m))"
  have f: "Allocate_n tsz 3 (Pool_ctor strategy m) =
      (map (chip_addr tsz p) [0..<3], s1\<lparr>mem := bump_mem (mem s1) p 3\<rparr>)"
    unfolding s1_def using assms by (intro fresh_fill) (simp_all add: p_def)
  show "fst (Allocate_n tsz 3 (Pool_ctor strategy m)) =
      [chip_addr tsz (strategy 0) 0, chip_addr tsz (strategy 0) 1, chip_addr tsz (strategy 0) 2]"
    unfolding f p_def by (simp add: upt_3)
  have c: "cur_pool (s1\<lparr>mem := bump_mem (mem s1) p 3\<rparr>) = p"
    by (simp add: s1_def adopt_AllocSubPool Pool_ctor_def p_def)
  show "fst (Allocate tsz (Deallocate tsz (snd (Allocate_n tsz 3 (Pool_ctor strategy m)))
        (chip_addr tsz (strategy 0) 1))) = chip_addr tsz (strategy 0) 1"
    unfolding f snd_conv p_def[symmetric] using assms c
    by (intro Deallocate_then_Allocate) (simp_all add: p_def unat_idx[of 3, simplified])
qed

text \<open>
  The free-list path, for every object size. (1) When the current chunk \<open>p\<close> is not
  full and its \<^verbatim>\<open>free_idx\<close> is a valid slot index, \<^verbatim>\<open>Allocate\<close> returns the slot at \<^verbatim>\<open>free_idx\<close>
  and sets \<^verbatim>\<open>free_idx\<close> to the link value stored in that slot. (2) The slot at
  \<^verbatim>\<open>free_idx\<close> is the most recently freed one: releasing slot \<open>i\<close> of a page-aligned
  chunk that is current (or full, which makes it current) and keeps at least one live
  slot, and allocating next, returns that same slot. (3) For every object size with at
  least three slots per chunk, on a fresh Pool with a zero-initialised page: after
  allocating A, B, C (slots 0, 1, 2 of the first chunk) and releasing B, the next
  \<^verbatim>\<open>Allocate\<close> returns exactly B's address.
\<close>

lemma lifo_recycling:
  "(cur_pool s = p \<and> p \<noteq> 0 \<and> \<not> IsFull tsz (mem s) p \<and> IsFreeIdxValid (mem s) p
      \<and> unat (free_idx (mem s) p) < kChipCount tsz
    \<longrightarrow> fst (Allocate tsz s) = chip_addr tsz p (unat (free_idx (mem s) p))
      \<and> free_idx (mem (snd (Allocate tsz s))) p =
          load_next_idx tsz (mem s) (chip_addr tsz p (unat (free_idx (mem s) p)))
      \<and> cur_pool (snd (Allocate tsz s)) = p)
   \<and> (page_aligned p \<and> p \<noteq> 0 \<and> i < kChipCount tsz
      \<and> (cur_pool s = p \<or> IsFull tsz (mem s) p)
      \<and> 2 \<le> unat (used_count (mem s) p) \<and> unat (used_count (mem s) p) \<le> kChipCount tsz
    \<longrightarrow> fst (Allocate tsz (Deallocate tsz s (chip_addr tsz p i))) = chip_addr tsz p i)
   \<and> (page_aligned (strategy 0) \<and> strategy 0 \<noteq> 0 \<and> zeroed_header m (strategy 0)
      \<and> 3 \<le> kChipCount tsz
    \<longrightarrow> fst (Allocate_n tsz 3 (Pool_ctor strategy m)) =
        [chip_addr tsz (strategy 0) 0, chip_addr tsz (strategy 0) 1, chip_addr tsz (strategy 0) 2]
      \<and> fst (Allocate tsz (Deallocate tsz (snd (Allocate_n tsz 3 (Pool_ctor strategy m)))
            (fst (Allocate_n tsz 3 (Pool_ctor strategy m)) ! 1)))
          = fst (Allocate_n tsz 3 (Pool_ctor strategy m)) ! 1)"
  using Allocate_pop[of s p tsz] Deallocate_then_Allocate(1)[of p i tsz s]
    lifo_scenario[of strategy m tsz]
  by simp


lemma lifo_state_hdr:
  "cur_pool lifo_state = pages 0" "used_count (mem lifo_state) (pages 0) = 2"
  "free_idx (mem lifo_state) (pages 0) = 1"
proof -
  define p where "p = pages 0"
  define s1 where "s1 = adopt (AllocSubPool 8 (Pool_ctor pages zero_mem))"
  have al: "page_aligned p" "p \<noteq> 0" by (simp_all add: p_def)
  have f: "Allocate_n 8 3 (Pool_ctor pages zero_mem) =
      (map (chip_addr 8 p) [0..<3], s1\<lparr>mem := bump_mem (mem s1) p 3\<rparr>)"
    unfolding s1_def using al by (intro fresh_fill) (simp_all add: p_def layout_8)
  have c: "cur_pool s1 = p"
    by (simp add: s1_def adopt_AllocSubPool Pool_ctor_def p_def)
  have i: "1 < kChipCount 8" by (simp add: layout_8)
  note o = chip_outside_hdr[OF i, of p]
  have "cur_pool lifo_state = p \<and> used_count (mem lifo_state) p = 2
      \<and> free_idx (mem lifo_state) p = 1"
    unfolding lifo_state_def f snd_conv p_def[symmetric] Deallocate_slot[OF al(1) i]
    using c o by (simp add: Let_def IsFull_def layout_8)
  then show "cur_pool lifo_state = pages 0" "used_count (mem lifo_state) (pages 0) = 2"
    "free_idx (mem lifo_state) (pages 0) = 1"
    by (simp_all add: p_def)
qed

lemma lifo_recycling_witness:
  "cur_pool lifo_state = pages 0 \<and> pages 0 \<noteq> 0 \<and> \<not> IsFull 8 (mem lifo_state) (pages 0)
   \<and> IsFreeIdxValid (mem lifo_state) (pages 0)
   \<and> unat (free_idx (mem lifo_state) (pages 0)) < kChipCount 8
   \<and> fst (Allocate 8 lifo_state) = chip_addr 8 (pages 0) 1
   \<and> page_aligned (pages 0) \<and> 0 < kChipCount 8
   \<and> 2 \<le> unat (used_count (mem lifo_state) (pages 0))
   \<and> unat (used_count (mem lifo_state) (pages 0)) \<le> kChipCount 8
   \<and> fst (Allocate 8 (Deallocate 8 lifo_state (chip_addr 8 (pages 0) 0))) = chip_addr 8 (pages 0) 0
   \<and> zeroed_header zero_mem (pages 0) \<and> 3 \<le> kChipCount 8
   \<and> fst (Allocate_n 8 3 (Pool_ctor pages zero_mem)) =
       [chip_addr 8 (pages 0) 0, chip_addr 8 (pages 0) 1, chip_addr 8 (pages 0) 2]"
  using lifo_recycling[of lifo_state "pages 0" 8 0 pages zero_mem] lifo_state_hdr
  by (simp add: IsFull_def IsFreeIdxValid_def layout_8 kInvalidIdx_eq)

subsection \<open>The free list of a 1-byte Pool\<close>

lemma lifo_1byte_calls_eq:
  defines "p \<equiv> pages 0"
  defines "s \<equiv> snd (snd lifo_1byte_calls)"
  shows "fst lifo_1byte_calls = map (chip_addr 1 p) [0..<300]"
    "fst (snd lifo_1byte_calls) = chip_addr 1 p 298"
    "cur_pool s = p" "used_count (mem s) p = 299" "free_idx (mem s) p = 43"
    "begin_idx (mem s) p = 300"
proof -
  define s1 where "s1 = adopt (AllocSubPool 1 (Pool_ctor pages zero_mem))"
  define sA where "sA = s1\<lparr>mem := bump_mem (mem s1) p 300\<rparr>"
  have al: "page_aligned p" "p \<noteq> 0" by (simp_all add: p_def)
  have rA: "Allocate_n 1 300 (Pool_ctor pages zero_mem) = (map (chip_addr 1 p) [0..<300], sA)"
    unfolding sA_def s1_def using al by (intro fresh_fill) (simp_all add: p_def)
  have n: "map (chip_addr 1 p) [0..<300] ! 299 = chip_addr 1 p 299"
    "map (chip_addr 1 p) [0..<300] ! 298 = chip_addr 1 p 298"
    by simp_all
  have h1: "cur_pool s1 = p" "free_idx (mem s1) p = kInvalidIdx"
    using AllocSubPool_hdr(1)[of 1 "Pool_ctor pages zero_mem"]
    by (simp_all add: s1_def adopt_AllocSubPool Pool_ctor_def p_def)
  have hA: "cur_pool sA = p" "used_count (mem sA) p = 300" "begin_idx (mem sA) p = 300"
    "free_idx (mem sA) p = kInvalidIdx"
    using h1 by (simp_all add: sA_def)
  have o: "16 \<le> chip_addr 1 p 299 - p" "16 \<le> chip_addr 1 p 299 + 1 - p"
    "16 \<le> chip_addr 1 p 298 - p" "16 \<le> chip_addr 1 p 298 + 1 - p"
    using chip_outside_hdr[of 299 1 p] chip_outside_hdr[of 298 1 p] by simp_all
  \<comment> \<open>slot 299 is released: its link holds the sentinel, cut to 8 bits\<close>
  define s2 where "s2 = Deallocate 1 sA (chip_addr 1 p 299)"
  have s2: "s2 = sA\<lparr>mem := set_free_idx (store_next_idx 1
      (set_used_count (mem sA) p 299) (chip_addr 1 p 299) kInvalidIdx) p 299\<rparr>"
    unfolding s2_def using al hA
    by (subst Deallocate_slot) (simp_all add: Let_def IsFull_def)
  have h2: "cur_pool s2 = p" "used_count (mem s2) p = 299" "begin_idx (mem s2) p = 300"
    "free_idx (mem s2) p = 299"
    using hA o by (simp_all add: s2)
  \<comment> \<open>slot 298 is released: its link holds index 299, cut to 8 bits\<close>
  define s3 where "s3 = Deallocate 1 s2 (chip_addr 1 p 298)"
  have s3: "s3 = s2\<lparr>mem := set_free_idx (store_next_idx 1
      (set_used_count (mem s2) p 298) (chip_addr 1 p 298) 299) p 298\<rparr>"
    unfolding s3_def using al h2
    by (subst Deallocate_slot) (simp_all add: Let_def IsFull_def)
  have h3: "cur_pool s3 = p" "used_count (mem s3) p = 298" "begin_idx (mem s3) p = 300"
    "free_idx (mem s3) p = 298"
    using h2 o by (simp_all add: s3)
  have l3: "load_next_idx 1 (set_used_count (mem s3) p 299) (chip_addr 1 p 298) = 43"
    using o by (simp add: s3 link_byte_roundtrip)
  \<comment> \<open>slot 298 is popped\<close>
  define s4 where "s4 = s3\<lparr>mem := set_free_idx (set_used_count (mem s3) p 299) p 43\<rparr>"
  have "Allocate 1 s3 = take_slot 1 s3"
    using al h3 by (intro Allocate_nonfull) (simp_all add: IsFull_def)
  then have r4: "Allocate 1 s3 = (chip_addr 1 p 298, s4)"
    using h3 l3 by (simp add: take_slot_pop kInvalidIdx_eq s4_def)
  have r: "lifo_1byte_calls = (map (chip_addr 1 p) [0..<300], chip_addr 1 p 298, s4)"
    unfolding lifo_1byte_calls_def rA prod.case n s2_def[symmetric] s3_def[symmetric] r4
    by simp
  show "fst lifo_1byte_calls = map (chip_addr 1 p) [0..<300]"
    "fst (snd lifo_1byte_calls) = chip_addr 1 p 298"
    unfolding r by simp_all
  show "cur_pool s = p" "used_count (mem s) p = 299" "free_idx (mem s) p = 43"
    "begin_idx (mem s) p = 300"
    unfolding s_def r snd_conv using h3 by (simp_all add: s4_def)
qed

text \<open>
  Claim C6, the behaviour of the code for a 1-byte object type. On a fresh Pool, 300
  allocations return the slots 0 to 299 of the first chunk, all distinct. Slot 299 is
  released, then slot 298, and the next \<^verbatim>\<open>Allocate\<close> returns slot 298, the slot freed
  last. Now slot 299 is the only free slot and heads the free list. But the link that
  \<^verbatim>\<open>Deallocate\<close> wrote into slot 298 is index 299 cut to the 8 bits of the link field,
  that is 43: \<^verbatim>\<open>free_idx\<close> is 43 after the pop, and the next \<^verbatim>\<open>Allocate\<close> takes the
  free-list path and returns slot 43, which is live (it was returned by the 44th call and
  never released), and not slot 299.
\<close>

theorem lifo_broken_by_1byte_link:
  "is_valid_chip_v 1
   \<and> (case lifo_1byte_calls of (as, x, s) \<Rightarrow>
        as = map (chip_addr 1 (pages 0)) [0..<300] \<and> distinct as
        \<and> x = as ! 298
        \<and> cur_pool s = pages 0
        \<and> unat (used_count (mem s) (pages 0)) = 299
        \<and> IsFreeIdxValid (mem s) (pages 0)
        \<and> free_idx (mem s) (pages 0) = 43
        \<and> fst (Allocate 1 s) = as ! 43
        \<and> fst (Allocate 1 s) \<noteq> as ! 299)"
proof -
  define p where "p = pages 0"
  obtain as x s where r: "lifo_1byte_calls = (as, x, s)"
    by (cases lifo_1byte_calls) auto
  note h = lifo_1byte_calls_eq[unfolded r, simplified, folded p_def]
  have al: "p \<noteq> 0" by (simp add: p_def)
  have d: "distinct as"
    using byte_slots_distinct[of 300 p] h(1) by simp
  have "Allocate 1 s = take_slot 1 s"
    using al h by (intro Allocate_nonfull) (simp_all add: IsFull_def)
  then have a: "fst (Allocate 1 s) = chip_addr 1 p 43"
    using h by (simp add: take_slot_pop kInvalidIdx_eq)
  have n: "as ! 43 = chip_addr 1 p 43" "chip_addr 1 p 43 \<noteq> as ! 299"
    using nth_eq_iff_index_eq[OF d, of 43 299] h(1) by simp_all
  show ?thesis
    unfolding r prod.case p_def[symmetric]
    using h d a n valid_sizes by (simp add: IsFreeIdxValid_def kInvalidIdx_eq)
qed

section \<open>Reset of a chunk that becomes empty\<close>

lemma Deallocate_reset:
  assumes "used_count (mem s) (ptr AND kPageMask) = 1"
  shows "used_count (mem (Deallocate tsz s ptr)) (ptr AND kPageMask) = 0"
    "free_idx (mem (Deallocate tsz s ptr)) (ptr AND kPageMask) = kInvalidIdx"
    "begin_idx (mem (Deallocate tsz s ptr)) (ptr AND kPageMask) = 0"
  using assms by (simp_all add: Deallocate_def Let_def IsEmpty_def)

text \<open>Releasing, in any order, as many slots of the current chunk as it has live ones.\<close>

lemma Deallocate_all_reset:
  assumes "page_aligned p" "cur_pool s = p" "unat (used_count (mem s) p) = length xs" "xs \<noteq> []"
    "length xs \<le> kChipCount tsz" "\<forall>x \<in> set xs. \<exists>i < kChipCount tsz. x = chip_addr tsz p i"
  shows "cur_pool (Deallocate_all tsz s xs) = p \<and> used_count (mem (Deallocate_all tsz s xs)) p = 0
    \<and> free_idx (mem (Deallocate_all tsz s xs)) p = kInvalidIdx
    \<and> begin_idx (mem (Deallocate_all tsz s xs)) p = 0"
  using assms(2-)
proof (induction xs arbitrary: s)
  case Nil
  then show ?case by simp
next
  case (Cons x xs)
  obtain i where i: "i < kChipCount tsz" "x = chip_addr tsz p i"
    using Cons.prems(5) by auto
  define s' where "s' = Deallocate tsz s x"
  note o = chip_outside_hdr[OF i(1), of p]
  have self: "(if \<not> IsFull tsz (mem s) (cur_pool s)
      then s\<lparr>mem := set_next_pool (mem s) p (cur_pool s)\<rparr> else s)\<lparr>cur_pool := p\<rparr> = s"
    if "IsFull tsz (mem s) p"
    using that Cons.prems(1) by simp
  have d: "s' = (if used_count (mem s) p = 1
      then s\<lparr>mem := set_begin_idx (set_free_idx
        (set_used_count (mem s) p (used_count (mem s) p - 1)) p kInvalidIdx) p 0\<rparr>
      else s\<lparr>mem := set_free_idx (store_next_idx tsz
        (set_used_count (mem s) p (used_count (mem s) p - 1)) x (free_idx (mem s) p))
        p (of_nat i)\<rparr>)"
    unfolding s'_def i(2) Deallocate_slot[OF assms(1) i(1)] Let_def
    using self by (cases "IsFull tsz (mem s) p") simp_all
  show ?case
  proof (cases "xs = []")
    case True
    then have "used_count (mem s) p = 1"
      using Cons.prems(2) by (simp add: word_unat_eq_iff)
    then show ?thesis
      using True Cons.prems(1) d by (simp add: Deallocate_all_def s'_def[symmetric])
  next
    case False
    then have n: "used_count (mem s) p \<noteq> 0" "used_count (mem s) p \<noteq> 1"
      using Cons.prems(2) by (auto simp: word_unat_eq_iff)
    then have u: "used_count (mem s) p \<noteq> 1" "unat (used_count (mem s) p - 1) = length xs"
      using Cons.prems(2) by (simp_all add: unat_minus_one)
    have "cur_pool (Deallocate_all tsz s' xs) = p
      \<and> used_count (mem (Deallocate_all tsz s' xs)) p = 0
      \<and> free_idx (mem (Deallocate_all tsz s' xs)) p = kInvalidIdx
      \<and> begin_idx (mem (Deallocate_all tsz s' xs)) p = 0"
      using Cons.prems u d False o i(2) by (intro Cons.IH) simp_all
    then show ?thesis
      by (simp add: Deallocate_all_def s'_def)
  qed
qed


lemma reset_scenario:
  assumes "page_aligned (strategy 0)" "strategy 0 \<noteq> 0" "zeroed_header m (strategy 0)"
    "0 < kChipCount tsz"
    "mset order = mset (fst (Allocate_n tsz (kChipCount tsz) (Pool_ctor strategy m)))"
  defines "sF \<equiv> snd (Allocate_n tsz (kChipCount tsz) (Pool_ctor strategy m))"
  defines "sE \<equiv> Deallocate_all tsz sF order"
  shows "fst (Allocate_n tsz (kChipCount tsz) (Pool_ctor strategy m)) =
      map (chip_addr tsz (strategy 0)) [0..<kChipCount tsz]"
    "IsFull tsz (mem sF) (strategy 0)"
    "used_count (mem sE) (strategy 0) = 0" "\<not> IsFreeIdxValid (mem sE) (strategy 0)"
    "begin_idx (mem sE) (strategy 0) = 0"
    "fst (Allocate tsz sE) = chip_addr tsz (strategy 0) 0"
    "begin_idx (mem (snd (Allocate tsz sE))) (strategy 0) = 1"
    "cur_pool (snd (Allocate tsz sE)) = strategy 0"
proof -
  define p where "p = strategy 0"
  define N where "N = kChipCount tsz"
  define s1 where "s1 = adopt (AllocSubPool tsz (Pool_ctor strategy m))"
  have N: "0 < N" "N \<le> 4080" using assms(4) kChipCount_le[of tsz] by (simp_all add: N_def)
  have f: "Allocate_n tsz N (Pool_ctor strategy m) =
      (map (chip_addr tsz p) [0..<N], s1\<lparr>mem := bump_mem (mem s1) p N\<rparr>)"
    unfolding s1_def using assms(1-4) by (intro fresh_fill) (simp_all add: p_def N_def)
  have sF: "sF = s1\<lparr>mem := bump_mem (mem s1) p N\<rparr>"
    unfolding sF_def N_def[symmetric] f by simp
  have hF: "cur_pool sF = p" "unat (used_count (mem sF) p) = N"
    using N by (simp_all add: sF s1_def adopt_AllocSubPool Pool_ctor_def p_def unat_idx)
  have o: "mset order = mset (map (chip_addr tsz p) [0..<N])"
    using assms(5) unfolding N_def[symmetric] f by simp
  then have "length order = N" "set order = chip_addr tsz p ` {0..<N}"
    using mset_eq_length[OF o] mset_eq_setD[OF o] by simp_all
  then have l: "length order = N" "order \<noteq> []"
    "\<forall>x \<in> set order. \<exists>i < kChipCount tsz. x = chip_addr tsz p i"
    using N by (auto simp: N_def)
  have e: "cur_pool sE = p \<and> used_count (mem sE) p = 0 \<and> free_idx (mem sE) p = kInvalidIdx
      \<and> begin_idx (mem sE) p = 0"
    unfolding sE_def using assms(1) hF l
    by (intro Deallocate_all_reset) (simp_all add: p_def N_def)
  have "Allocate tsz sE = take_slot tsz sE"
    using e assms(2,4) by (intro Allocate_nonfull) (simp_all add: IsFull_def p_def)
  then have a: "Allocate tsz sE = (chip_addr tsz p 0,
      sE\<lparr>mem := set_begin_idx (set_used_count (mem sE) p 1) p 1\<rparr>)"
    using e by (simp add: take_slot_bump)
  show "fst (Allocate_n tsz (kChipCount tsz) (Pool_ctor strategy m)) =
      map (chip_addr tsz (strategy 0)) [0..<kChipCount tsz]"
    unfolding N_def[symmetric] f p_def by simp
  show "IsFull tsz (mem sF) (strategy 0)"
    using hF by (simp add: IsFull_def p_def N_def)
  show "used_count (mem sE) (strategy 0) = 0" "\<not> IsFreeIdxValid (mem sE) (strategy 0)"
    "begin_idx (mem sE) (strategy 0) = 0"
    using e by (simp_all add: p_def IsFreeIdxValid_def)
  show "fst (Allocate tsz sE) = chip_addr tsz (strategy 0) 0"
    "begin_idx (mem (snd (Allocate tsz sE))) (strategy 0) = 1"
    "cur_pool (snd (Allocate tsz sE)) = strategy 0"
    unfolding a using e by (simp_all add: p_def)
qed

text \<open>
  The reset of the chunk at the base of a page, for every object size. (1) If the chunk
  that \<^verbatim>\<open>Deallocate\<close> attributes the pointer to (the pointer with its low 12 bits cleared)
  has \<^verbatim>\<open>used_count == 1\<close>, so that the call makes it reach 0, the call leaves that chunk
  with \<^verbatim>\<open>used_count == 0\<close>, \<^verbatim>\<open>free_idx\<close> at the sentinel and \<^verbatim>\<open>begin_idx == 0\<close>.
  (2) For every object size with at least one slot per chunk, on a fresh Pool with a
  zero-initialised page: the first \<open>chip_count\<close> allocations return the slots of the
  first chunk and fill it; after releasing all of them, in any order (any permutation of
  the returned pointers), the chunk has \<^verbatim>\<open>used_count == 0\<close>, no free-list entry and
  \<^verbatim>\<open>begin_idx == 0\<close>; the next \<^verbatim>\<open>Allocate\<close> returns its slot 0 and advances
  \<^verbatim>\<open>begin_idx\<close> to 1 (the bump path), with the chunk still current.
\<close>

lemma empty_reset:
  "(used_count (mem s) (ptr AND kPageMask) = 1 \<longrightarrow>
      used_count (mem (Deallocate tsz s ptr)) (ptr AND kPageMask) = 0
    \<and> free_idx (mem (Deallocate tsz s ptr)) (ptr AND kPageMask) = kInvalidIdx
    \<and> begin_idx (mem (Deallocate tsz s ptr)) (ptr AND kPageMask) = 0)
   \<and> (page_aligned (strategy 0) \<and> strategy 0 \<noteq> 0 \<and> zeroed_header m (strategy 0)
      \<and> 0 < kChipCount tsz
      \<and> mset order = mset (fst (Allocate_n tsz (kChipCount tsz) (Pool_ctor strategy m)))
    \<longrightarrow> fst (Allocate_n tsz (kChipCount tsz) (Pool_ctor strategy m)) =
        map (chip_addr tsz (strategy 0)) [0..<kChipCount tsz]
      \<and> IsFull tsz (mem (snd (Allocate_n tsz (kChipCount tsz) (Pool_ctor strategy m)))) (strategy 0)
      \<and> used_count (mem (Deallocate_all tsz
            (snd (Allocate_n tsz (kChipCount tsz) (Pool_ctor strategy m))) order)) (strategy 0) = 0
      \<and> \<not> IsFreeIdxValid (mem (Deallocate_all tsz
            (snd (Allocate_n tsz (kChipCount tsz) (Pool_ctor strategy m))) order)) (strategy 0)
      \<and> begin_idx (mem (Deallocate_all tsz
            (snd (Allocate_n tsz (kChipCount tsz) (Pool_ctor strategy m))) order)) (strategy 0) = 0
      \<and> fst (Allocate tsz (Deallocate_all tsz
            (snd (Allocate_n tsz (kChipCount tsz) (Pool_ctor strategy m))) order))
          = chip_addr tsz (strategy 0) 0
      \<and> begin_idx (mem (snd (Allocate tsz (Deallocate_all tsz
            (snd (Allocate_n tsz (kChipCount tsz) (Pool_ctor strategy m))) order)))) (strategy 0) = 1
      \<and> cur_pool (snd (Allocate tsz (Deallocate_all tsz
            (snd (Allocate_n tsz (kChipCount tsz) (Pool_ctor strategy m))) order))) = strategy 0)"
  using Deallocate_reset[of s ptr tsz] reset_scenario[of strategy m tsz order]
  by simp


lemma empty_reset_witness:
  "used_count (mem (snd (Allocate_n 2040 1 (Pool_ctor pages zero_mem))))
      (chip_addr 2040 (pages 0) 0 AND kPageMask) = 1
   \<and> begin_idx (mem (Deallocate 2040 (snd (Allocate_n 2040 1 (Pool_ctor pages zero_mem)))
        (chip_addr 2040 (pages 0) 0))) (chip_addr 2040 (pages 0) 0 AND kPageMask) = 0
   \<and> page_aligned (pages 0) \<and> pages 0 \<noteq> 0 \<and> zeroed_header zero_mem (pages 0)
   \<and> 0 < kChipCount 2040
   \<and> mset [chip_addr 2040 (pages 0) 1, chip_addr 2040 (pages 0) 0]
       = mset (fst (Allocate_n 2040 (kChipCount 2040) (Pool_ctor pages zero_mem)))
   \<and> fst (Allocate 2040 (Deallocate_all 2040
         (snd (Allocate_n 2040 (kChipCount 2040) (Pool_ctor pages zero_mem)))
         [chip_addr 2040 (pages 0) 1, chip_addr 2040 (pages 0) 0]))
       = chip_addr 2040 (pages 0) 0"
proof -
  define s1 where "s1 = adopt (AllocSubPool 2040 (Pool_ctor pages zero_mem))"
  have f1: "Allocate_n 2040 1 (Pool_ctor pages zero_mem) =
      (map (chip_addr 2040 (pages 0)) [0..<1], s1\<lparr>mem := bump_mem (mem s1) (pages 0) 1\<rparr>)"
    unfolding s1_def by (intro fresh_fill) (simp_all add: layout_2040)
  have f2: "Allocate_n 2040 (kChipCount 2040) (Pool_ctor pages zero_mem) =
      (map (chip_addr 2040 (pages 0)) [0..<kChipCount 2040],
       s1\<lparr>mem := bump_mem (mem s1) (pages 0) (kChipCount 2040)\<rparr>)"
    unfolding s1_def by (intro fresh_fill) (simp_all add: layout_2040)
  have m: "chip_addr 2040 (pages 0) 0 AND kPageMask = pages 0"
    by (intro chip_addr_mask) (simp_all add: layout_2040)
  have w1: "used_count (mem (snd (Allocate_n 2040 1 (Pool_ctor pages zero_mem))))
      (chip_addr 2040 (pages 0) 0 AND kPageMask) = 1"
    unfolding f1 m by simp
  have w2: "mset [chip_addr 2040 (pages 0) 1, chip_addr 2040 (pages 0) 0]
       = mset (fst (Allocate_n 2040 (kChipCount 2040) (Pool_ctor pages zero_mem)))"
    unfolding f2 by (simp add: layout_2040 upt_2)
  have h: "page_aligned (pages 0)" "pages 0 \<noteq> 0" "zeroed_header zero_mem (pages 0)"
    "0 < kChipCount 2040"
    by (simp_all add: layout_2040)
  show ?thesis
    using empty_reset[of "snd (Allocate_n 2040 1 (Pool_ctor pages zero_mem))"
        "chip_addr 2040 (pages 0) 0" 2040 pages zero_mem
        "[chip_addr 2040 (pages 0) 1, chip_addr 2040 (pages 0) 0]"] w1 w2 h
    by simp
qed

subsection \<open>Releasing all slots of a chained chunk\<close>

text \<open>Releasing, in any order, slots of the second chunk of a page, as many as the first
  chunk of the page has live ones: the calls work on the first chunk only.\<close>

lemma Deallocate_all_chained:
  assumes "page_aligned p"
    "cur_pool s = p \<or> (cur_pool s = p + 512 \<and> used_count (mem s) (p + 512) = 496
       \<and> length xs = 496)"
    "unat (used_count (mem s) p) = length xs" "xs \<noteq> []" "length xs \<le> 496"
    "\<forall>x \<in> set xs. \<exists>i < 496. x = chip_addr (Suc 0) (p + 512) i"
  shows "cur_pool (Deallocate_all (Suc 0) s xs) = p
    \<and> used_count (mem (Deallocate_all (Suc 0) s xs)) p = 0
    \<and> free_idx (mem (Deallocate_all (Suc 0) s xs)) p = kInvalidIdx
    \<and> begin_idx (mem (Deallocate_all (Suc 0) s xs)) p = 0
    \<and> used_count (mem (Deallocate_all (Suc 0) s xs)) (p + 512) = used_count (mem s) (p + 512)
    \<and> begin_idx (mem (Deallocate_all (Suc 0) s xs)) (p + 512) = begin_idx (mem s) (p + 512)
    \<and> free_idx (mem (Deallocate_all (Suc 0) s xs)) (p + 512) = free_idx (mem s) (p + 512)"
  using assms(2-)
proof (induction xs arbitrary: s)
  case Nil
  then show ?case by simp
next
  case (Cons x xs)
  define X where "X = p + 512"
  obtain i where i: "i < 496" "x = chip_addr (Suc 0) p (512 + i)"
    using Cons.prems(5) by (auto simp: chained_slot)
  have far: "far X p" "far p X" by (simp_all add: X_def far_def)
  have j: "512 + i < 4080" using i(1) by simp
  have o: "16 \<le> x - p" "16 \<le> x + 1 - p"
    using byte_slot_outside_hdr[OF j, of p] by (simp_all add: i(2))
  have oX: "16 \<le> x - X" "16 \<le> x + 1 - X"
  proof -
    have "x - X = of_nat (16 + i)" "x + 1 - X = of_nat (Suc (16 + i))"
      by (simp_all add: i(2) chip_byte X_def)
    then show "16 \<le> x - X" "16 \<le> x + 1 - X"
      using le_of_nat_addr[of "16 + i"] le_of_nat_addr[of "Suc (16 + i)"] i(1)
      by (simp_all del: of_nat_Suc of_nat_add)
  qed
  define s' where "s' = Deallocate (Suc 0) s x"
  have nolink: "IsFull (Suc 0) (mem s) (cur_pool s)" if "IsFull (Suc 0) (mem s) p"
    using that Cons.prems(1) by (auto simp: IsFull_def)
  have c: "cur_pool s' = p"
    unfolding s'_def i(2) Deallocate_byte_slot[OF assms(1) j] Let_def
    using Cons.prems(1,2) by (auto simp: IsFull_def)
  have m: "mem s' = (if used_count (mem s) p = 1
      then set_begin_idx (set_free_idx
        (set_used_count (mem s) p (used_count (mem s) p - 1)) p kInvalidIdx) p 0
      else set_free_idx (store_next_idx (Suc 0)
        (set_used_count (mem s) p (used_count (mem s) p - 1)) x (free_idx (mem s) p))
        p (of_nat (512 + i)))"
    unfolding s'_def i(2) Deallocate_byte_slot[OF assms(1) j] Let_def
    using nolink by (cases "IsFull (Suc 0) (mem s) p") simp_all
  have hX: "used_count (mem s') X = used_count (mem s) X"
    "begin_idx (mem s') X = begin_idx (mem s) X" "free_idx (mem s') X = free_idx (mem s) X"
    unfolding m using far oX by simp_all
  show ?case
  proof (cases "xs = []")
    case True
    then have "used_count (mem s) p = 1"
      using Cons.prems(2) by (simp add: word_unat_eq_iff)
    then show ?thesis
      using True c m hX by (simp add: Deallocate_all_def s'_def[symmetric] X_def)
  next
    case False
    then have n: "used_count (mem s) p \<noteq> 0" "used_count (mem s) p \<noteq> 1"
      using Cons.prems(2) by (auto simp: word_unat_eq_iff)
    then have u: "unat (used_count (mem s) p - 1) = length xs"
      using Cons.prems(2) by (simp add: unat_minus_one)
    have u': "unat (used_count (mem s') p) = length xs"
      unfolding m using n u o by simp
    have "cur_pool (Deallocate_all (Suc 0) s' xs) = p
      \<and> used_count (mem (Deallocate_all (Suc 0) s' xs)) p = 0
      \<and> free_idx (mem (Deallocate_all (Suc 0) s' xs)) p = kInvalidIdx
      \<and> begin_idx (mem (Deallocate_all (Suc 0) s' xs)) p = 0
      \<and> used_count (mem (Deallocate_all (Suc 0) s' xs)) (p + 512) = used_count (mem s') (p + 512)
      \<and> begin_idx (mem (Deallocate_all (Suc 0) s' xs)) (p + 512) = begin_idx (mem s') (p + 512)
      \<and> free_idx (mem (Deallocate_all (Suc 0) s' xs)) (p + 512) = free_idx (mem s') (p + 512)"
      using Cons.prems(4,5) c u' False by (intro Cons.IH) simp_all
    then show ?thesis
      using hX by (simp add: Deallocate_all_def s'_def X_def)
  qed
qed

text \<open>
  Claim C7, the behaviour of the code for a 1-byte object type. On a fresh Pool, 496
  allocations fill the first chunk \<open>P\<close> of the page and 496 more fill the chunk \<open>X\<close>
  chained behind it, at offset 512. Then all slots of \<open>X\<close> are released, in any order (any
  permutation of the pointers of the second group; all are live). \<open>X\<close> is not reset: it
  still has \<^verbatim>\<open>used_count == 496\<close> and \<^verbatim>\<open>begin_idx == 496\<close> and reads as full. The calls
  have emptied and reset \<open>P\<close> instead, all of whose slots are live, and made it current:
  the next \<^verbatim>\<open>Allocate\<close> takes the bump path on \<open>P\<close> and returns slot 0 of \<open>P\<close>, the
  pointer of the very first allocation, which was never released.
\<close>

theorem reset_misses_chained_chunk:
  assumes "mset order = mset (fst (snd chained_fill))"
  shows "is_valid_chip_v 1
   \<and> (case chained_fill of (as, bs, s) \<Rightarrow>
        as = map (chip_addr 1 (pages 0)) [0..<496]
        \<and> bs = map (chip_addr 1 (pages 0 + 512)) [0..<496]
        \<and> IsFull 1 (mem s) (pages 0) \<and> IsFull 1 (mem s) (pages 0 + 512)
        \<and> unat (used_count (mem (Deallocate_all 1 s order)) (pages 0 + 512)) = 496
        \<and> unat (begin_idx (mem (Deallocate_all 1 s order)) (pages 0 + 512)) = 496
        \<and> IsFull 1 (mem (Deallocate_all 1 s order)) (pages 0 + 512)
        \<and> used_count (mem (Deallocate_all 1 s order)) (pages 0) = 0
        \<and> begin_idx (mem (Deallocate_all 1 s order)) (pages 0) = 0
        \<and> \<not> IsFreeIdxValid (mem (Deallocate_all 1 s order)) (pages 0)
        \<and> cur_pool (Deallocate_all 1 s order) = pages 0
        \<and> fst (Allocate 1 (Deallocate_all 1 s order)) = as ! 0
        \<and> as ! 0 \<notin> set order)"
proof -
  define p where "p = pages 0"
  obtain as bs s where r: "chained_fill = (as, bs, s)"
    by (cases chained_fill) auto
  note h = chained_fill_eq[unfolded r, simplified, folded p_def]
  have al: "page_aligned p" "p \<noteq> 0" by (simp_all add: p_def)
  have ord: "mset order = mset (map (chip_addr (Suc 0) (p + 512)) [0..<496])"
    using assms h(2) by (simp add: r)
  have l: "length order = 496" "order \<noteq> []"
    "set order = chip_addr (Suc 0) (p + 512) ` {0..<496}"
    using mset_eq_length[OF ord] mset_eq_setD[OF ord] by auto
  then have mem: "\<forall>x \<in> set order. \<exists>i < 496. x = chip_addr (Suc 0) (p + 512) i"
    by auto
  define sE where "sE = Deallocate_all (Suc 0) s order"
  have e: "cur_pool sE = p \<and> used_count (mem sE) p = 0 \<and> free_idx (mem sE) p = kInvalidIdx
      \<and> begin_idx (mem sE) p = 0
      \<and> used_count (mem sE) (p + 512) = used_count (mem s) (p + 512)
      \<and> begin_idx (mem sE) (p + 512) = begin_idx (mem s) (p + 512)
      \<and> free_idx (mem sE) (p + 512) = free_idx (mem s) (p + 512)"
    unfolding sE_def using al(1) h l(1,2) mem
    by (intro Deallocate_all_chained) simp_all
  have "Allocate (Suc 0) sE = take_slot (Suc 0) sE"
    using e al by (intro Allocate_nonfull) (simp_all add: IsFull_def)
  then have a: "fst (Allocate (Suc 0) sE) = chip_addr (Suc 0) p 0"
    using e by (simp add: take_slot_bump)
  have as0: "as ! 0 = chip_addr (Suc 0) p 0"
    using h(1) by (simp add: nth_map upt_conv_Cons[of 0])
  have d: "distinct (map (chip_addr (Suc 0) p) [0..<1008])"
    by (rule byte_slots_distinct) simp
  have ne: "chip_addr (Suc 0) p 0 \<noteq> chip_addr (Suc 0) p (512 + i)" if "i < 496" for i
    using nth_eq_iff_index_eq[OF d, of 0 "512 + i"] that by simp
  have out: "as ! 0 \<notin> set order"
  proof
    assume "as ! 0 \<in> set order"
    then obtain i where "i < 496" "chip_addr (Suc 0) p 0 = chip_addr (Suc 0) (p + 512) i"
      unfolding l(3) as0 by auto
    then show False using ne[of i] by (simp only: chained_slot)
  qed
  show ?thesis
    unfolding r prod.case p_def[symmetric]
    using h e a as0 out valid_sizes
    by (simp add: sE_def[symmetric] IsFull_def IsFreeIdxValid_def)
qed

theorem reset_misses_chained_chunk_witness:
  "mset (rev (map (chip_addr 1 (pages 0 + 512)) [0..<496])) = mset (fst (snd chained_fill))
   \<and> IsFull 1 (mem (snd (snd chained_fill))) (pages 0 + 512)
   \<and> unat (used_count (mem (Deallocate_all 1 (snd (snd chained_fill))
        (rev (map (chip_addr 1 (pages 0 + 512)) [0..<496])))) (pages 0 + 512)) = 496
   \<and> used_count (mem (Deallocate_all 1 (snd (snd chained_fill))
        (rev (map (chip_addr 1 (pages 0 + 512)) [0..<496])))) (pages 0) = 0
   \<and> fst (Allocate 1 (Deallocate_all 1 (snd (snd chained_fill))
        (rev (map (chip_addr 1 (pages 0 + 512)) [0..<496])))) = chip_addr 1 (pages 0) 0"
proof -
  have w: "mset (rev (map (chip_addr 1 (pages 0 + 512)) [0..<496]))
      = mset (fst (snd chained_fill))"
    unfolding chained_fill_eq(2) by simp
  obtain as bs s where r: "chained_fill = (as, bs, s)"
    by (cases chained_fill) auto
  have "as = map (chip_addr 1 (pages 0)) [0..<496]"
    using chained_fill_eq(1) by (simp add: r)
  then have as0: "as ! 0 = chip_addr 1 (pages 0) 0"
    by (simp add: nth_map upt_conv_Cons[of 0])
  show ?thesis
    using reset_misses_chained_chunk[OF w] w as0 by (simp add: r)
qed

section \<open>Rotation when a slot of a full chunk is released\<close>

lemma Deallocate_full_current:
  "IsFull tsz (mem s) (ptr AND kPageMask) \<Longrightarrow> cur_pool (Deallocate tsz s ptr) = ptr AND kPageMask"
  by (simp add: Deallocate_def Let_def)

lemma Deallocate_other_header:
  assumes "far Y (ptr AND kPageMask)" "16 \<le> ptr - Y" "16 \<le> ptr + 1 - Y"
  shows "free_idx (mem (Deallocate tsz s ptr)) Y = free_idx (mem s) Y"
    "begin_idx (mem (Deallocate tsz s ptr)) Y = begin_idx (mem s) Y"
    "used_count (mem (Deallocate tsz s ptr)) Y = used_count (mem s) Y"
    "next_pool (mem (Deallocate tsz s ptr)) Y = next_pool (mem s) Y"
  using assms by (simp_all add: Deallocate_def Let_def)

lemma full_slot_reuse:
  assumes "page_aligned p" "p \<noteq> 0" "i < kChipCount tsz" "IsFull tsz (mem s) p"
  shows "fst (Allocate tsz (Deallocate tsz s (chip_addr tsz p i))) = chip_addr tsz p i"
    "cur_pool (snd (Allocate tsz (Deallocate tsz s (chip_addr tsz p i)))) = p"
proof -
  have u: "unat (used_count (mem s) p) = kChipCount tsz"
    using assms(4) by (simp add: IsFull_def)
  have "fst (Allocate tsz (Deallocate tsz s (chip_addr tsz p i))) = chip_addr tsz p i
    \<and> cur_pool (snd (Allocate tsz (Deallocate tsz s (chip_addr tsz p i)))) = p"
  proof (cases "kChipCount tsz = 1")
    case True
    define s' where "s' = Deallocate tsz s (chip_addr tsz p i)"
    have one: "used_count (mem s) p = 1" "i = 0"
      using u True assms(3) by (simp_all add: word_unat_eq_iff)
    have h: "cur_pool s' = p" "free_idx (mem s') p = kInvalidIdx" "used_count (mem s') p = 0"
      "begin_idx (mem s') p = 0"
      unfolding s'_def Deallocate_slot[OF assms(1,3)] using one assms(4)
      by (simp_all add: Let_def)
    have "Allocate tsz s' = take_slot tsz s'"
      using assms(2) h True by (intro Allocate_nonfull) (simp_all add: IsFull_def)
    then show ?thesis
      unfolding s'_def[symmetric] using h one by (simp add: take_slot_bump)
  next
    case False
    then have "2 \<le> unat (used_count (mem s) p)" using u assms(3) by simp
    then show ?thesis
      using Deallocate_then_Allocate[OF assms(1-3), of s] assms(4) u by simp
  qed
  then show "fst (Allocate tsz (Deallocate tsz s (chip_addr tsz p i))) = chip_addr tsz p i"
    "cur_pool (snd (Allocate tsz (Deallocate tsz s (chip_addr tsz p i)))) = p"
    by simp_all
qed

text \<open>
  Rotation to the chunk at the base of a page, for every object size. (1) If the chunk
  \<open>X\<close> that \<^verbatim>\<open>Deallocate\<close> attributes the pointer to (the pointer with its low 12 bits cleared) is full at the time of the
  call, \<open>X\<close> is the current chunk after the call. (2) The call leaves the four header
  fields of any chunk \<open>Y\<close> unchanged whose header overlaps neither the header of \<open>X\<close> nor
  the link bytes of the released slot, in particular the previously current chunk.
  (3) For a slot \<open>i\<close> of a full page-aligned chunk \<open>p\<close>: \<open>p\<close> is current after the call,
  the next \<^verbatim>\<open>Allocate\<close> draws from \<open>p\<close> (it returns the slot just released and leaves
  \<open>p\<close> current), and the header of every other page-aligned chunk \<open>q\<close> is unchanged by the
  release.
\<close>

lemma rotation_on_free_from_full:
  "(IsFull tsz (mem s) (ptr AND kPageMask)
      \<longrightarrow> cur_pool (Deallocate tsz s ptr) = ptr AND kPageMask)
   \<and> (far Y (ptr AND kPageMask) \<and> 16 \<le> ptr - Y \<and> 16 \<le> ptr + 1 - Y
      \<longrightarrow> free_idx (mem (Deallocate tsz s ptr)) Y = free_idx (mem s) Y
        \<and> begin_idx (mem (Deallocate tsz s ptr)) Y = begin_idx (mem s) Y
        \<and> used_count (mem (Deallocate tsz s ptr)) Y = used_count (mem s) Y
        \<and> next_pool (mem (Deallocate tsz s ptr)) Y = next_pool (mem s) Y)
   \<and> (page_aligned p \<and> p \<noteq> 0 \<and> i < kChipCount tsz \<and> IsFull tsz (mem s) p
      \<longrightarrow> cur_pool (Deallocate tsz s (chip_addr tsz p i)) = p
        \<and> fst (Allocate tsz (Deallocate tsz s (chip_addr tsz p i))) = chip_addr tsz p i
        \<and> cur_pool (snd (Allocate tsz (Deallocate tsz s (chip_addr tsz p i)))) = p
        \<and> (page_aligned q \<and> q \<noteq> p
            \<longrightarrow> free_idx (mem (Deallocate tsz s (chip_addr tsz p i))) q = free_idx (mem s) q
              \<and> begin_idx (mem (Deallocate tsz s (chip_addr tsz p i))) q = begin_idx (mem s) q
              \<and> used_count (mem (Deallocate tsz s (chip_addr tsz p i))) q = used_count (mem s) q
              \<and> next_pool (mem (Deallocate tsz s (chip_addr tsz p i))) q = next_pool (mem s) q))"
proof -
  have 3: "cur_pool (Deallocate tsz s (chip_addr tsz p i)) = p"
    if "page_aligned p" "i < kChipCount tsz" "IsFull tsz (mem s) p"
    using that Deallocate_full_current[of tsz s "chip_addr tsz p i"]
    by (simp add: chip_addr_mask)
  have 4: "free_idx (mem (Deallocate tsz s (chip_addr tsz p i))) q = free_idx (mem s) q
      \<and> begin_idx (mem (Deallocate tsz s (chip_addr tsz p i))) q = begin_idx (mem s) q
      \<and> used_count (mem (Deallocate tsz s (chip_addr tsz p i))) q = used_count (mem s) q
      \<and> next_pool (mem (Deallocate tsz s (chip_addr tsz p i))) q = next_pool (mem s) q"
    if "page_aligned p" "i < kChipCount tsz" "page_aligned q" "q \<noteq> p"
  proof -
    have "far q (chip_addr tsz p i AND kPageMask)"
      using that by (simp add: chip_addr_mask aligned_far)
    then show ?thesis
      using chip_outside_other[OF that(1,3) _ that(2)] that(4)
      by (intro conjI Deallocate_other_header) auto
  qed
  show ?thesis
    using Deallocate_full_current[of tsz s ptr] Deallocate_other_header[of Y ptr tsz s]
      full_slot_reuse[of p i tsz s] 3 4
    by simp
qed


lemma rotation_state_hdr:
  "cur_pool rotation_state = pages 1" "used_count (mem rotation_state) (pages 0) = 2"
  "used_count (mem rotation_state) (pages 1) = 1"
proof -
  define p where "p = pages 0"
  define q where "q = pages 1"
  note [simp] = layout_2040 IsFull_def
  have al: "page_aligned p" "p \<noteq> 0" "far p q" "far q p"
    by (simp_all add: p_def q_def)
  define s1 where "s1 = adopt (AllocSubPool 2040 (Pool_ctor pages zero_mem))"
  define s2 where "s2 = s1\<lparr>mem := bump_mem (mem s1) p 2\<rparr>"
  have r2: "Allocate_n 2040 2 (Pool_ctor pages zero_mem) = (map (chip_addr 2040 p) [0..<2], s2)"
    unfolding s2_def s1_def using al by (intro fresh_fill) (simp_all add: p_def)
  have h1: "mem s1 = set_free_idx zero_mem p kInvalidIdx" "cur_pool s1 = p"
    "alloc_calls s1 = 1" "allocate s1 = pages"
    by (simp_all add: s1_def adopt_AllocSubPool AllocSubPool_mem_other Pool_ctor_def p_def)
  have h2: "cur_pool s2 = p" "alloc_calls s2 = 1" "allocate s2 = pages"
    "used_count (mem s2) p = 2" "next_pool (mem s2) p = 0" "used_count (mem s2) q = 0"
    using al by (simp_all add: s2_def h1)
  have g: "adopt (AllocSubPool 2040 s2) =
      s2\<lparr>cur_pool := q, alloc_calls := 2, mem := set_free_idx (mem s2) q kInvalidIdx\<rparr>"
    by (simp add: adopt_AllocSubPool AllocSubPool_mem_other h2 q_def)
  have "Allocate 2040 s2 = take_slot 2040 (adopt (AllocSubPool 2040 s2))"
    using al h2 by (intro Allocate_grow) simp_all
  then have "cur_pool (snd (Allocate 2040 s2)) = q
      \<and> used_count (mem (snd (Allocate 2040 s2))) p = 2
      \<and> used_count (mem (snd (Allocate 2040 s2))) q = 1"
    using al h2 by (simp add: take_slot_bump g)
  then show "cur_pool rotation_state = pages 1" "used_count (mem rotation_state) (pages 0) = 2"
    "used_count (mem rotation_state) (pages 1) = 1"
    unfolding rotation_state_def r2 snd_conv by (simp_all add: p_def q_def)
qed

lemma rotation_on_free_from_full_witness:
  "IsFull 2040 (mem rotation_state) (chip_addr 2040 (pages 0) 0 AND kPageMask)
   \<and> cur_pool rotation_state = pages 1
   \<and> cur_pool (Deallocate 2040 rotation_state (chip_addr 2040 (pages 0) 0)) = pages 0
   \<and> far (pages 1) (chip_addr 2040 (pages 0) 0 AND kPageMask)
   \<and> 16 \<le> chip_addr 2040 (pages 0) 0 - pages 1 \<and> 16 \<le> chip_addr 2040 (pages 0) 0 + 1 - pages 1
   \<and> used_count (mem (Deallocate 2040 rotation_state (chip_addr 2040 (pages 0) 0))) (pages 1) = 1
   \<and> page_aligned (pages 0) \<and> pages 0 \<noteq> 0 \<and> 0 < kChipCount 2040
   \<and> IsFull 2040 (mem rotation_state) (pages 0)
   \<and> fst (Allocate 2040 (Deallocate 2040 rotation_state (chip_addr 2040 (pages 0) 0)))
       = chip_addr 2040 (pages 0) 0
   \<and> page_aligned (pages 1) \<and> pages 1 \<noteq> pages 0
   \<and> next_pool (mem (Deallocate 2040 rotation_state (chip_addr 2040 (pages 0) 0))) (pages 1)
       = next_pool (mem rotation_state) (pages 1)"
proof -
  have m: "chip_addr 2040 (pages 0) 0 AND kPageMask = pages 0"
    by (intro chip_addr_mask) (simp_all add: layout_2040)
  have o: "16 \<le> chip_addr 2040 (pages 0) 0 - pages 1"
    "16 \<le> chip_addr 2040 (pages 0) 0 + 1 - pages 1"
    by (intro chip_outside_other; simp add: layout_2040)+
  show ?thesis
    using rotation_on_free_from_full[of 2040 rotation_state "chip_addr 2040 (pages 0) 0"
        "pages 1" "pages 0" 0 "pages 1"] rotation_state_hdr m o
    by (simp add: IsFull_def layout_2040)
qed

subsection \<open>Releasing a slot of a full chained chunk\<close>

text \<open>
  Claim C8, the behaviour of the code for a 1-byte object type. After 992 allocations on
  a fresh Pool the first chunk \<open>P\<close> of the page and the chunk \<open>X\<close> chained behind it, at
  offset 512, are both full, and \<open>X\<close> is current. Slot 0 of \<open>X\<close> is released, a live
  pointer. \<^verbatim>\<open>Deallocate\<close> attributes it to \<open>P\<close>: after the call \<open>P\<close> is the current chunk
  and not \<open>X\<close>; \<open>X\<close> still has \<^verbatim>\<open>used_count == chip_count\<close> and no free-list entry, so
  nothing can be drawn from it; and the header of the other chunk \<open>P\<close> has changed
  (\<^verbatim>\<open>used_count\<close> from 496 to 495, \<^verbatim>\<open>free_idx\<close> from the sentinel to 512). The next
  \<^verbatim>\<open>Allocate\<close> leaves \<open>P\<close> current and counts its slot in \<open>P\<close>.
\<close>

theorem rotation_misses_chained_chunk:
  "is_valid_chip_v 1
   \<and> (case chained_fill of (as, bs, s) \<Rightarrow>
        bs = map (chip_addr 1 (pages 0 + 512)) [0..<496]
        \<and> pages 0 \<noteq> pages 0 + 512
        \<and> cur_pool s = pages 0 + 512
        \<and> IsFull 1 (mem s) (pages 0 + 512)
        \<and> IsFull 1 (mem s) (pages 0) \<and> \<not> IsFreeIdxValid (mem s) (pages 0)
        \<and> cur_pool (Deallocate 1 s (bs ! 0)) = pages 0
        \<and> IsFull 1 (mem (Deallocate 1 s (bs ! 0))) (pages 0 + 512)
        \<and> \<not> IsFreeIdxValid (mem (Deallocate 1 s (bs ! 0))) (pages 0 + 512)
        \<and> unat (used_count (mem (Deallocate 1 s (bs ! 0))) (pages 0)) = 495
        \<and> free_idx (mem (Deallocate 1 s (bs ! 0))) (pages 0) = 512
        \<and> cur_pool (snd (Allocate 1 (Deallocate 1 s (bs ! 0)))) = pages 0
        \<and> unat (used_count (mem (snd (Allocate 1 (Deallocate 1 s (bs ! 0))))) (pages 0)) = 496
        \<and> unat (used_count (mem (snd (Allocate 1 (Deallocate 1 s (bs ! 0)))))
             (pages 0 + 512)) = 496)"
proof -
  define p where "p = pages 0"
  define X where "X = p + 512"
  obtain as bs s where r: "chained_fill = (as, bs, s)"
    by (cases chained_fill) auto
  note h = chained_fill_eq[unfolded r, simplified, folded p_def, folded X_def]
  have "page_aligned p" by (simp add: p_def)
  moreover have "p \<noteq> 0" "p \<noteq> X" by (simp_all add: p_def X_def pages_simps)
  moreover have "far p X" "far X p" by (simp_all add: X_def far_def)
  ultimately have al: "page_aligned p" "p \<noteq> 0" "p \<noteq> X" "far p X" "far X p"
    by simp_all
  define a where "a = chip_addr (Suc 0) p 512"
  have b0: "bs ! 0 = a"
    using h(2) by (simp add: X_def a_def chained_slot[of p 0, simplified])
  have o: "16 \<le> a - p" "16 \<le> a + 1 - p" "16 \<le> a - X" "16 \<le> a + 1 - X"
    using byte_slot_outside_hdr[of 512 p]
    by (simp_all add: a_def) (simp_all add: X_def chip_byte)
  define s' where "s' = Deallocate 1 s a"
  have s': "s' = s\<lparr>cur_pool := p, mem := set_free_idx (store_next_idx 1
      (set_used_count (mem s) p 495) a kInvalidIdx) p 512\<rparr>"
    unfolding s'_def using h Deallocate_byte_slot[OF al(1), of 512 s]
    by (simp add: a_def Let_def IsFull_def)
  have h': "cur_pool s' = p" "used_count (mem s') p = 495" "free_idx (mem s') p = 512"
    "used_count (mem s') X = 496" "free_idx (mem s') X = kInvalidIdx"
    using h o al by (simp_all add: s')
  have "Allocate 1 s' = take_slot 1 s'"
    using al h' by (intro Allocate_nonfull) (simp_all add: IsFull_def)
  then have n: "cur_pool (snd (Allocate 1 s')) = p"
    "used_count (mem (snd (Allocate 1 s'))) p = 496"
    "used_count (mem (snd (Allocate 1 s'))) X = 496"
    using h' al by (simp_all add: take_slot_pop kInvalidIdx_eq)
  show ?thesis
    unfolding r prod.case b0 s'_def[symmetric] p_def[symmetric] X_def[symmetric]
    using h h' n al valid_sizes
    by (simp add: IsFull_def IsFreeIdxValid_def kInvalidIdx_eq)
qed

section \<open>The release strategy is never called\<close>

lemma AllocSubPool_dealloc_calls:
  "dealloc_calls (snd (AllocSubPool tsz s)) = dealloc_calls s"
  by (simp add: AllocSubPool_def Let_def split: prod.splits)

lemma adopt_dealloc_calls:
  "dealloc_calls (adopt (AllocSubPool tsz s)) = dealloc_calls s"
  by (simp add: adopt_def AllocSubPool_dealloc_calls)

lemma take_slot_dealloc_calls:
  "dealloc_calls (snd (take_slot tsz s)) = dealloc_calls s"
  by (simp add: take_slot_def Let_def)

lemma Allocate_dealloc_calls:
  "dealloc_calls (snd (Allocate tsz s)) = dealloc_calls s"
  by (simp add: Allocate_def Let_def take_slot_dealloc_calls adopt_dealloc_calls)

lemma Deallocate_dealloc_calls:
  "dealloc_calls (Deallocate tsz s ptr) = dealloc_calls s"
  by (simp add: Deallocate_def Let_def)

lemma run_call_dealloc_calls:
  "dealloc_calls (run_call tsz s c) = dealloc_calls s"
  by (cases c) (simp_all add: Allocate_dealloc_calls Deallocate_dealloc_calls Pool_dtor_def)

text \<open>
  Claim C9. The Pool never invokes the injected release strategy: after any sequence of
  \<^verbatim>\<open>Allocate\<close> and \<^verbatim>\<open>Deallocate\<close> calls (with any pointers) and destruction, on a Pool
  built with any strategy over any memory and for any object size, the log of release
  calls is still empty, also when a chunk has become completely empty on the way.
\<close>

theorem release_never_called:
  "dealloc_calls (run tsz (Pool_ctor strategy m) cs) = []"
proof -
  have "dealloc_calls (foldl (run_call tsz) s cs) = dealloc_calls s" for s
    by (induction cs arbitrary: s) (simp_all add: run_call_dealloc_calls)
  then show ?thesis by (simp add: run_def Pool_ctor_def)
qed

section \<open>What acquiring a chunk writes\<close>

lemma bytes_at_2: "bytes_at a 2 = [a, a + 1]"
  by (simp add: bytes_at_def upt_2)

lemma bytes_at_8: "bytes_at a 8 = [a, a + 1, a + 2, a + 3, a + 4, a + 5, a + 6, a + 7]"
  by (simp add: bytes_at_def upt_8)

lemma chunk_bases_1:
  "chunk_bases (Suc 0) p = [p, p + 512, p + 1024, p + 1536, p + 2048, p + 2560, p + 3072, p + 3584]"
  by (simp add: chunk_bases_def kPageSize_def upt_8)

lemma AllocSubPool_frame_1:
  assumes "a \<notin> set (AllocSubPool_writes (Suc 0) (allocate s (alloc_calls s)))"
  shows "mem (snd (AllocSubPool (Suc 0) s)) a = mem s a"
  using assms
  by (simp add: AllocSubPool_writes_def kPageSize_def upt_8 bytes_at_2 bytes_at_8 add.assoc
      AllocSubPool_mem_1 link_loop_8 hdr_defs store_u16_other store_ptr_other)

lemma AllocSubPool_frame_other:
  assumes "tsz \<noteq> 1" "a \<notin> set (AllocSubPool_writes tsz (allocate s (alloc_calls s)))"
  shows "mem (snd (AllocSubPool tsz s)) a = mem s a"
  using assms
  by (simp add: AllocSubPool_writes_def bytes_at_2 AllocSubPool_mem_other hdr_defs store_u16_other)

lemma AllocSubPool_chunks_1:
  assumes "c \<in> set (chunk_bases (Suc 0) (allocate s (alloc_calls s)))"
  shows "free_idx (mem (snd (AllocSubPool (Suc 0) s))) c = kInvalidIdx
    \<and> begin_idx (mem (snd (AllocSubPool (Suc 0) s))) c = begin_idx (mem s) c
    \<and> used_count (mem (snd (AllocSubPool (Suc 0) s))) c = used_count (mem s) c"
  using assms
  by (auto simp add: chunk_bases_1 AllocSubPool_mem_1 link_loop_8 far_def)


text \<open>
  Claim C10. When a new chunk is acquired, \<^verbatim>\<open>AllocSubPool\<close> returns the address the
  strategy returned and sets up one chunk there (8 chunks for a 1-byte object type). It
  changes no byte of memory outside the \<^verbatim>\<open>free_idx\<close> field of the new chunk (for a
  1-byte object type: outside the \<^verbatim>\<open>free_idx\<close> fields of the 8 chunks chained in the
  page and the \<^verbatim>\<open>next_pool\<close> fields that link them). Every chunk it sets
  up has \<^verbatim>\<open>free_idx\<close> at the sentinel, and \<^verbatim>\<open>begin_idx\<close> and \<^verbatim>\<open>used_count\<close> exactly
  as the acquired memory held them: the chunk reads as empty precisely when the memory
  the strategy returned had \<^verbatim>\<open>used_count\<close> zero there.
\<close>

theorem AllocSubPool_frame:
  "fst (AllocSubPool tsz s) = allocate s (alloc_calls s)
   \<and> length (chunk_bases tsz (fst (AllocSubPool tsz s))) = (if tsz = 1 then 8 else 1)
   \<and> (\<forall>a. a \<notin> set (AllocSubPool_writes tsz (fst (AllocSubPool tsz s)))
          \<longrightarrow> mem (snd (AllocSubPool tsz s)) a = mem s a)
   \<and> (\<forall>c \<in> set (chunk_bases tsz (fst (AllocSubPool tsz s))).
          free_idx (mem (snd (AllocSubPool tsz s))) c = kInvalidIdx
        \<and> begin_idx (mem (snd (AllocSubPool tsz s))) c = begin_idx (mem s) c
        \<and> used_count (mem (snd (AllocSubPool tsz s))) c = used_count (mem s) c
        \<and> (IsEmpty (mem (snd (AllocSubPool tsz s))) c \<longleftrightarrow> used_count (mem s) c = 0))"
proof -
  have f: "fst (AllocSubPool tsz s) = allocate s (alloc_calls s)"
    by (subst AllocSubPool_shape) simp
  show ?thesis
  proof (cases "tsz = 1")
    case True
    then show ?thesis
      unfolding f using AllocSubPool_frame_1[of _ s] AllocSubPool_chunks_1[of _ s]
      by (simp add: IsEmpty_def chunk_bases_1)
  next
    case False
    then show ?thesis
      unfolding f using AllocSubPool_frame_other[of tsz _ s]
      by (simp add: IsEmpty_def chunk_bases_def AllocSubPool_mem_other)
  qed
qed

theorem AllocSubPool_frame_witness:
  "(0x10002 :: addr) \<notin> set (AllocSubPool_writes 8 (fst (AllocSubPool 8 (Pool_ctor pages zero_mem))))
   \<and> mem (snd (AllocSubPool 8 (Pool_ctor pages zero_mem))) 0x10002 = zero_mem 0x10002
   \<and> pages 0 \<in> set (chunk_bases 8 (fst (AllocSubPool 8 (Pool_ctor pages zero_mem))))
   \<and> begin_idx (mem (snd (AllocSubPool 8 (Pool_ctor pages zero_mem)))) (pages 0) = 0
   \<and> used_count (mem (snd (AllocSubPool 8 (Pool_ctor pages zero_mem)))) (pages 0) = 0"
proof -
  have f: "fst (AllocSubPool 8 (Pool_ctor pages zero_mem)) = pages 0"
    by (subst AllocSubPool_shape) (simp add: Pool_ctor_def)
  have h: "(0x10002 :: addr) \<notin> set (AllocSubPool_writes 8 (fst (AllocSubPool 8 (Pool_ctor pages zero_mem))))"
    "pages 0 \<in> set (chunk_bases 8 (fst (AllocSubPool 8 (Pool_ctor pages zero_mem))))"
    unfolding f by (simp_all add: AllocSubPool_writes_def bytes_at_2 chunk_bases_def pages_def)
  show ?thesis
    using h AllocSubPool_frame[of 8 "Pool_ctor pages zero_mem"]
    by (auto simp: Pool_ctor_def)
qed

end
